theory Spec2Isabelle
  imports Main "HOL-Library.AList" "HOL-Library.Sublist" "HOL-Library.Char_ord"
    "HOL-Library.List_Lexorder"
begin

section \<open>The compressed trie of \<^verbatim>\<open>trie.py\<close>\<close>

subsection \<open>Data model\<close>

text \<open>
  \<^verbatim>\<open>_TrieNode\<close> is a dataclass with the fields \<^verbatim>\<open>children\<close> (a dict from a
  character to the child node), \<^verbatim>\<open>is_end\<close>, \<^verbatim>\<open>value\<close> and \<^verbatim>\<open>fragment\<close>.
  The dict is an association list in insertion order: \<open>map_of\<close> is the lookup,
  \<open>AList.update\<close> the assignment \<^verbatim>\<open>d[k] = v\<close> (in place for a key that is present,
  appended otherwise) and \<open>AList.delete\<close> the statement \<^verbatim>\<open>del d[k]\<close>.
  A value is any Python object; \<open>None\<close> of the option type is Python's \<^verbatim>\<open>None\<close>.
  A key is a list of characters; characters are ordered by their codes, and keys
  lexicographically, as Python orders strings.
  The nodes of a trie are owned by one parent each, so a node is the value of its subtree.
\<close>

datatype 'v TrieNode =
  TrieNode (children: "(char \<times> 'v TrieNode) list") (is_end: bool)
    (node_value: "'v option") (fragment: string)

record 'v Trie =
  t_root :: "'v TrieNode"
  t_size :: int

text \<open>\<^verbatim>\<open>Trie.__init__\<close>: a root with the default fields, and size 0.\<close>

definition empty_trie :: "'v Trie" where
  "empty_trie = \<lparr>t_root = TrieNode [] False None [], t_size = 0\<rparr>"

text \<open>The field assignments of the source, one function for each field.\<close>

fun set_children :: "(char \<times> 'v TrieNode) list \<Rightarrow> 'v TrieNode \<Rightarrow> 'v TrieNode" where
  "set_children cs (TrieNode _ e v f) = TrieNode cs e v f"

fun set_end :: "bool \<Rightarrow> 'v option \<Rightarrow> 'v TrieNode \<Rightarrow> 'v TrieNode" where
  "set_end e v (TrieNode cs _ _ f) = TrieNode cs e v f"

fun set_fragment :: "string \<Rightarrow> 'v TrieNode \<Rightarrow> 'v TrieNode" where
  "set_fragment f (TrieNode cs e v _) = TrieNode cs e v f"

text \<open>\<^verbatim>\<open>node.children[char] = child\<close> and \<^verbatim>\<open>del node.children[char]\<close>.\<close>

definition put_child :: "char \<Rightarrow> 'v TrieNode \<Rightarrow> 'v TrieNode \<Rightarrow> 'v TrieNode" where
  "put_child c child node = set_children (AList.update c child (children node)) node"

definition del_child :: "char \<Rightarrow> 'v TrieNode \<Rightarrow> 'v TrieNode" where
  "del_child c node = set_children (AList.delete c (children node)) node"

text \<open>\<^verbatim>\<open>_TrieNode(fragment=s, is_end=True, value=v)\<close>.\<close>

definition leaf :: "string \<Rightarrow> 'v option \<Rightarrow> 'v TrieNode" where
  "leaf s v = TrieNode [] True v s"

subsection \<open>The matching loop\<close>

text \<open>
  The inner loop of \<^verbatim>\<open>insert\<close> and \<^verbatim>\<open>_find_node\<close>:
  \<^verbatim>\<open>while j < len(fragment) and i + j < len(key) and key[i + j] == fragment[j]: j += 1\<close>.
  The second argument is the rest of the key, \<^verbatim>\<open>key[i:]\<close>; the result is \<^verbatim>\<open>j\<close>.
\<close>

fun match_len :: "string \<Rightarrow> string \<Rightarrow> nat" where
  "match_len (f # fs) (k # ks) = (if k = f then Suc (match_len fs ks) else 0)"
| "match_len _ _ = 0"

lemma map_of_size:
  "map_of cs c = Some child \<Longrightarrow> size child < Suc (size_list (size_prod (\<lambda>_. 0) size) cs)"
  by (induction cs) (auto split: if_splits)

lemma child_size [termination_simp]:
  "map_of (children node) c = Some child \<Longrightarrow> size child < size node"
  by (cases node) (auto dest: map_of_size)

subsection \<open>\<^verbatim>\<open>_find_node\<close>, \<^verbatim>\<open>search\<close>, \<^verbatim>\<open>starts_with\<close>\<close>

text \<open>
  \<^verbatim>\<open>_find_node\<close>: the first argument is the rest of the key, \<^verbatim>\<open>key[i:]\<close>, the second the
  current node. The loop ends when the key is used up, when no child starts with the next
  character, or inside a fragment.
\<close>

fun find_node :: "string \<Rightarrow> 'v TrieNode \<Rightarrow> 'v TrieNode option" where
  "find_node [] node = Some node"
| "find_node (c # cs) node =
     (case map_of (children node) c of
        None \<Rightarrow> None
      | Some child \<Rightarrow>
          (let j = match_len (fragment child) (c # cs) in
           if j < length (fragment child)
           then (if j = length (c # cs) then Some child else None)
           else find_node (drop j (c # cs)) child))"

definition search :: "'v Trie \<Rightarrow> string \<Rightarrow> 'v option" where
  "search t key =
     (case find_node key (t_root t) of
        None \<Rightarrow> None
      | Some node \<Rightarrow> if is_end node then node_value node else None)"

definition starts_with :: "'v Trie \<Rightarrow> string \<Rightarrow> bool" where
  "starts_with t p = (find_node p (t_root t) \<noteq> None)"

text \<open>\<^verbatim>\<open>__contains__\<close> and \<^verbatim>\<open>__len__\<close>.\<close>

definition contains :: "'v Trie \<Rightarrow> string \<Rightarrow> bool" where
  "contains t key = (search t key \<noteq> None)"

definition len :: "'v Trie \<Rightarrow> int" where
  "len t = t_size t"

subsection \<open>\<^verbatim>\<open>insert\<close>\<close>

text \<open>
  The loop of \<^verbatim>\<open>insert\<close> at the current node, with the rest of the key. It gives the
  node as the call leaves it and the amount added to \<^verbatim>\<open>_size\<close>. A descent into a child
  changes that child in place; here the changed child is stored back under its character.
\<close>

fun insert_at :: "string \<Rightarrow> 'v option \<Rightarrow> 'v TrieNode \<Rightarrow> 'v TrieNode \<times> int" where
  "insert_at [] v node = (set_end True v node, if is_end node then 0 else 1)"
| "insert_at (c # cs) v node =
     (case map_of (children node) c of
        None \<Rightarrow> (put_child c (leaf (c # cs) v) node, 1)
      | Some child \<Rightarrow>
          (let frag = fragment child; j = match_len frag (c # cs) in
           if j = length frag
           then (case insert_at (drop j (c # cs)) v child of
                   (child', d) \<Rightarrow> (put_child c child' node, d))
           else
             (let split = TrieNode [(frag ! j, set_fragment (drop j frag) child)]
                            False None (take j frag) in
              if j = length (c # cs)
              then (put_child c (set_end True v split) node, 1)
              else
                (let remaining = drop j (c # cs) in
                 (put_child c (put_child (hd remaining) (leaf remaining v) split) node, 1)))))"

definition insert_trie :: "'v Trie \<Rightarrow> string \<Rightarrow> 'v option \<Rightarrow> 'v Trie" where
  "insert_trie t key v =
     (case insert_at key v (t_root t) of
        (r, d) \<Rightarrow> \<lparr>t_root = r, t_size = t_size t + d\<rparr>)"

subsection \<open>\<^verbatim>\<open>delete\<close>\<close>

text \<open>
  The walk of \<^verbatim>\<open>delete\<close>. \<^verbatim>\<open>path\<close> is the list of \<^verbatim>\<open>(parent, char)\<close> pairs; its head
  is the pair appended last, the one \<^verbatim>\<open>path.pop()\<close> takes. \<open>None\<close> is the
  \<^verbatim>\<open>return False\<close> inside the loop; otherwise the walk gives the path and the landing node.
\<close>

fun del_walk :: "string \<Rightarrow> 'v TrieNode \<Rightarrow> ('v TrieNode \<times> char) list \<Rightarrow>
    (('v TrieNode \<times> char) list \<times> 'v TrieNode) option" where
  "del_walk [] node path = Some (path, node)"
| "del_walk (c # cs) node path =
     (case map_of (children node) c of
        None \<Rightarrow> None
      | Some child \<Rightarrow>
          if \<not> prefix (fragment child) (c # cs) then None
          else del_walk (drop (length (fragment child)) (c # cs)) child ((node, c) # path))"

text \<open>
  \<^verbatim>\<open>while path and not node.children and not node.is_end\<close>: the edge to the current node
  is deleted from its parent, and the parent becomes the current node.
\<close>

fun prune :: "'v TrieNode \<Rightarrow> ('v TrieNode \<times> char) list \<Rightarrow>
    'v TrieNode \<times> ('v TrieNode \<times> char) list" where
  "prune node [] = (node, [])"
| "prune node ((parent, edge_char) # path) =
     (if children node = [] \<and> \<not> is_end node
      then prune (del_child edge_char parent) path
      else (node, (parent, edge_char) # path))"

text \<open>
  \<^verbatim>\<open>if len(node.children) == 1 and not node.is_end and path\<close>: the node takes over the
  fields of its only child, behind its own fragment.
\<close>

definition merge :: "'v TrieNode \<Rightarrow> ('v TrieNode \<times> char) list \<Rightarrow> 'v TrieNode" where
  "merge node path =
     (if length (children node) = 1 \<and> \<not> is_end node \<and> path \<noteq> []
      then (let only_char = fst (hd (children node));
                only_child = the (map_of (children node) only_char)
            in TrieNode (children only_child) (is_end only_child) (node_value only_child)
                 (fragment node @ fragment only_child))
      else node)"

text \<open>
  The source changes the nodes in place, so each parent left on the path sees the
  change below it. Here the current node is stored back under its edge character in each
  parent that is left on the path, up to the root.
\<close>

fun rebuild :: "'v TrieNode \<Rightarrow> ('v TrieNode \<times> char) list \<Rightarrow> 'v TrieNode" where
  "rebuild node [] = node"
| "rebuild node ((parent, edge_char) # path) = rebuild (put_child edge_char node parent) path"

text \<open>\<^verbatim>\<open>delete\<close> gives the returned boolean and the trie after the call.\<close>

definition delete :: "'v Trie \<Rightarrow> string \<Rightarrow> bool \<times> 'v Trie" where
  "delete t key =
     (case del_walk key (t_root t) [] of
        None \<Rightarrow> (False, t)
      | Some (path, node) \<Rightarrow>
          if \<not> is_end node then (False, t)
          else (case prune (set_end False None node) path of
                  (node', path') \<Rightarrow>
                    (True, \<lparr>t_root = rebuild (merge node' path') path',
                            t_size = t_size t - 1\<rparr>)))"

subsection \<open>\<^verbatim>\<open>keys_with_prefix\<close>\<close>

text \<open>
  A bound for the termination of the traversal: each lookup in the dict of a node gives
  one of its children, and there are as many lookups as the dict has entries.
\<close>

fun weight :: "'v TrieNode \<Rightarrow> nat" where
  "weight (TrieNode cs e v f) = Suc (length cs * sum_list (map (\<lambda>p. weight (snd p)) cs))"

lemma weight_lookup:
  "map_of cs c = Some n \<Longrightarrow> weight n \<le> sum_list (map (\<lambda>p. weight (snd p)) cs)"
  by (induction cs) (auto split: if_splits)

lemma sum_list_bound:
  "\<forall>x\<in>set xs. f x \<le> (w::nat) \<Longrightarrow> sum_list (map f xs) \<le> length xs * w"
  by (induction xs) (auto intro: add_le_mono)

lemma weight_children:
  "sum_list (map (\<lambda>ch. weight (the (map_of cs ch))) (sort (map fst cs)))
     \<le> length cs * sum_list (map (\<lambda>p. weight (snd p)) cs)"
proof -
  have "weight (the (map_of cs ch)) \<le> sum_list (map (\<lambda>p. weight (snd p)) cs)"
    if "ch \<in> set (sort (map fst cs))" for ch
  proof -
    from that have "ch \<in> fst ` set cs" by simp
    then obtain n where "map_of cs ch = Some n"
      by (metis domD dom_map_of_conv_image_fst)
    then show ?thesis by (simp add: weight_lookup)
  qed
  then have "\<forall>ch\<in>set (sort (map fst cs)).
      weight (the (map_of cs ch)) \<le> sum_list (map (\<lambda>p. weight (snd p)) cs)"
    by blast
  from sum_list_bound [OF this] show ?thesis by simp
qed

text \<open>
  The loop of \<^verbatim>\<open>keys_with_prefix\<close> over the explicit stack of \<^verbatim>\<open>(node, accumulated)\<close>
  pairs; the head of the list is the pair \<^verbatim>\<open>stack.pop()\<close> takes. The children are pushed
  in descending order of their characters, so the child with the least character is on top.
  The result is the list of the strings yielded, in the order of the yields.
\<close>

function dfs :: "('v TrieNode \<times> string) list \<Rightarrow> string list" where
  "dfs [] = []"
| "dfs ((current, acc) # stack) =
     (if is_end current then [acc] else []) @
     dfs (map (\<lambda>ch. let child = the (map_of (children current) ch)
                     in (child, acc @ fragment child))
            (sort (map fst (children current))) @ stack)"
  by pat_completeness auto
termination
proof (relation "measure (\<lambda>stack. sum_list (map (\<lambda>p. weight (fst p)) stack))")
  show "wf (measure (\<lambda>stack. sum_list (map (\<lambda>p. weight (fst p)) stack)))" by simp
next
  fix current :: "'v TrieNode" and acc :: string and stack :: "('v TrieNode \<times> string) list"
  obtain cs e v f where c: "current = TrieNode cs e v f" by (cases current)
  show "(map (\<lambda>ch. let child = the (map_of (children current) ch)
                    in (child, acc @ fragment child))
           (sort (map fst (children current))) @ stack, (current, acc) # stack)
        \<in> measure (\<lambda>stack. sum_list (map (\<lambda>p. weight (fst p)) stack))"
    using weight_children [of cs] by (simp add: c Let_def comp_def)
qed

definition keys_with_prefix :: "'v Trie \<Rightarrow> string \<Rightarrow> string list" where
  "keys_with_prefix t p =
     (case find_node p (t_root t) of
        None \<Rightarrow> []
      | Some node \<Rightarrow> dfs [(node, p)])"

section \<open>Stored keys, invariants and reachable states\<close>

subsection \<open>The keys below a node\<close>

text \<open>
  The strings spelled by the paths from a node down to its terminal nodes: each path
  gives the concatenation of the fragments of the nodes below the starting node.
  \<open>edge_keys\<close> puts the fragment of the node itself in front.
\<close>

fun keys_of :: "'v TrieNode \<Rightarrow> string set" where
  "keys_of (TrieNode cs e v f) =
     (if e then {[]} else {}) \<union> (\<Union>p\<in>set cs. (@) (fragment (snd p)) ` keys_of (snd p))"

definition edge_keys :: "'v TrieNode \<Rightarrow> string set" where
  "edge_keys n = (@) (fragment n) ` keys_of n"

definition rest_keys :: "char \<Rightarrow> 'v TrieNode \<Rightarrow> string set" where
  "rest_keys c node =
     (if is_end node then {[]} else {}) \<union>
     {k. \<exists>c' n. c' \<noteq> c \<and> map_of (children node) c' = Some n \<and> k \<in> edge_keys n}"

subsection \<open>The structural invariant\<close>

text \<open>
  At every node the characters of the dict are distinct, and every child has a fragment
  that is not empty and starts with the character it is stored under, is terminal or has
  at least two children, and satisfies the invariant itself. The root is not constrained:
  it may be non-terminal with one child or none.
\<close>

fun invar :: "'v TrieNode \<Rightarrow> bool" where
  "invar (TrieNode cs e v f) =
     (distinct (map fst cs) \<and>
      (\<forall>p\<in>set cs. fragment (snd p) \<noteq> [] \<and> hd (fragment (snd p)) = fst p \<and>
         (is_end (snd p) \<or> 2 \<le> length (children (snd p))) \<and> invar (snd p)))"

definition sub_ok :: "'v TrieNode \<Rightarrow> bool" where
  "sub_ok n = (fragment n \<noteq> [] \<and> (is_end n \<or> 2 \<le> length (children n)) \<and> invar n)"

text \<open>The nodes strictly below a node, and the first characters of the edges of a node.\<close>

fun subnodes :: "'v TrieNode \<Rightarrow> 'v TrieNode list" where
  "subnodes (TrieNode cs e v f) = concat (map (\<lambda>p. snd p # subnodes (snd p)) cs)"

definition first_chars :: "'v TrieNode \<Rightarrow> char list" where
  "first_chars n = map (\<lambda>p. hd (fragment (snd p))) (children n)"

subsection \<open>Reachable states\<close>

text \<open>
  \<open>reach t S\<close>: the trie \<open>t\<close> is the result of a finite sequence of \<^verbatim>\<open>insert\<close> and
  \<^verbatim>\<open>delete\<close> calls on the empty trie, and \<open>S\<close> is the set of the keys inserted and not
  deleted since: the stored keys.
\<close>

inductive reach :: "'v Trie \<Rightarrow> string set \<Rightarrow> bool" where
  reach_empty: "reach empty_trie {}"
| reach_insert: "reach t S \<Longrightarrow> reach (insert_trie t k v) (Set.insert k S)"
| reach_delete: "reach t S \<Longrightarrow> reach (snd (delete t k)) (S - {k})"

text \<open>
  The two ways \<^verbatim>\<open>delete\<close> returns false: the walk cannot consume the key fragment by
  fragment, or the landing node is not terminal.
\<close>

definition not_stored :: "'v Trie \<Rightarrow> string \<Rightarrow> bool" where
  "not_stored t key =
     (case del_walk key (t_root t) [] of
        None \<Rightarrow> True
      | Some (path, node) \<Rightarrow> \<not> is_end node)"

subsection \<open>A recursive description of \<^verbatim>\<open>delete\<close>\<close>

text \<open>
  The loops of \<^verbatim>\<open>delete\<close> over the path are awkward to reason about. \<open>del_rec\<close>
  describes the effect of \<^verbatim>\<open>delete\<close> on a node below the root by recursion on the tree:
  the key is missing, the node is pruned from its parent, or the node is replaced.
  \<open>del_root\<close> is the same at the root, which is never pruned or merged. It is proved equal
  to \<open>delete\<close> for every trie (\<open>delete_eq\<close> below), and serves only the proofs.
\<close>

datatype 'v del_result = Missing | Pruned | Replaced "'v TrieNode"

definition merge1 :: "'v TrieNode \<Rightarrow> 'v TrieNode" where
  "merge1 node =
     (if length (children node) = 1 \<and> \<not> is_end node
      then (let only_child = the (map_of (children node) (fst (hd (children node))))
            in TrieNode (children only_child) (is_end only_child) (node_value only_child)
                 (fragment node @ fragment only_child))
      else node)"

definition cleanup :: "'v TrieNode \<Rightarrow> ('v TrieNode \<times> char) list \<Rightarrow> 'v TrieNode" where
  "cleanup node path =
     (case prune node path of (node', path') \<Rightarrow> rebuild (merge node' path') path')"

fun del_rec :: "string \<Rightarrow> 'v TrieNode \<Rightarrow> 'v del_result" where
  "del_rec [] node =
     (if \<not> is_end node then Missing
      else if children node = [] then Pruned
      else Replaced (merge1 (set_end False None node)))"
| "del_rec (c # cs) node =
     (case map_of (children node) c of
        None \<Rightarrow> Missing
      | Some child \<Rightarrow>
          if \<not> prefix (fragment child) (c # cs) then Missing
          else (case del_rec (drop (length (fragment child)) (c # cs)) child of
                  Missing \<Rightarrow> Missing
                | Replaced child' \<Rightarrow> Replaced (put_child c child' node)
                | Pruned \<Rightarrow>
                    (let n = del_child c node in
                     if children n = [] \<and> \<not> is_end n then Pruned
                     else Replaced (merge1 n))))"

fun del_root :: "string \<Rightarrow> 'v TrieNode \<Rightarrow> 'v TrieNode option" where
  "del_root [] node = (if is_end node then Some (set_end False None node) else None)"
| "del_root (c # cs) node =
     (case map_of (children node) c of
        None \<Rightarrow> None
      | Some child \<Rightarrow>
          if \<not> prefix (fragment child) (c # cs) then None
          else (case del_rec (drop (length (fragment child)) (c # cs)) child of
                  Missing \<Rightarrow> None
                | Replaced child' \<Rightarrow> Some (put_child c child' node)
                | Pruned \<Rightarrow> Some (del_child c node)))"

section \<open>Basic facts\<close>

subsection \<open>Field access\<close>

lemma children_set_children [simp]: "children (set_children cs n) = cs"
  by (cases n) simp
lemma is_end_set_children [simp]: "is_end (set_children cs n) = is_end n"
  by (cases n) simp
lemma node_value_set_children [simp]: "node_value (set_children cs n) = node_value n"
  by (cases n) simp
lemma fragment_set_children [simp]: "fragment (set_children cs n) = fragment n"
  by (cases n) simp
lemma children_set_end [simp]: "children (set_end e v n) = children n"
  by (cases n) simp
lemma is_end_set_end [simp]: "is_end (set_end e v n) = e"
  by (cases n) simp
lemma node_value_set_end [simp]: "node_value (set_end e v n) = v"
  by (cases n) simp
lemma fragment_set_end [simp]: "fragment (set_end e v n) = fragment n"
  by (cases n) simp
lemma children_set_fragment [simp]: "children (set_fragment f n) = children n"
  by (cases n) simp
lemma is_end_set_fragment [simp]: "is_end (set_fragment f n) = is_end n"
  by (cases n) simp
lemma node_value_set_fragment [simp]: "node_value (set_fragment f n) = node_value n"
  by (cases n) simp
lemma fragment_set_fragment [simp]: "fragment (set_fragment f n) = f"
  by (cases n) simp

lemma children_put_child [simp]:
  "children (put_child c x n) = AList.update c x (children n)"
  by (simp add: put_child_def)
lemma is_end_put_child [simp]: "is_end (put_child c x n) = is_end n"
  by (simp add: put_child_def)
lemma node_value_put_child [simp]: "node_value (put_child c x n) = node_value n"
  by (simp add: put_child_def)
lemma fragment_put_child [simp]: "fragment (put_child c x n) = fragment n"
  by (simp add: put_child_def)
lemma children_del_child [simp]:
  "children (del_child c n) = AList.delete c (children n)"
  by (simp add: del_child_def)
lemma is_end_del_child [simp]: "is_end (del_child c n) = is_end n"
  by (simp add: del_child_def)
lemma node_value_del_child [simp]: "node_value (del_child c n) = node_value n"
  by (simp add: del_child_def)
lemma fragment_del_child [simp]: "fragment (del_child c n) = fragment n"
  by (simp add: del_child_def)

lemma leaf_sel [simp]:
  "children (leaf s v) = []" "is_end (leaf s v)" "node_value (leaf s v) = v"
  "fragment (leaf s v) = s"
  by (simp_all add: leaf_def)

subsection \<open>The matching loop\<close>

lemma match_len_le_fragment: "match_len f k \<le> length f"
  by (induction f k rule: match_len.induct) auto
lemma match_len_le_key: "match_len f k \<le> length k"
  by (induction f k rule: match_len.induct) auto
lemma match_len_same [simp]: "match_len k k = length k"
  by (induction k) auto
lemma match_len_take [simp]: "match_len (take (match_len f k) f) k = match_len f k"
  by (induction f k rule: match_len.induct) auto
lemma take_match_len: "take (match_len f k) f = take (match_len f k) k"
  by (induction f k rule: match_len.induct) auto
lemma match_len_full_iff: "match_len f k = length f \<longleftrightarrow> prefix f k"
  by (induction f k rule: match_len.induct) auto
lemma match_len_mismatch:
  "match_len f k < length f \<Longrightarrow> match_len f k < length k \<Longrightarrow> f ! match_len f k \<noteq> k ! match_len f k"
  by (induction f k rule: match_len.induct) (auto split: if_splits)

subsection \<open>Lookup after insertion\<close>

lemma fragment_insert_at [simp]: "fragment (fst (insert_at k v node)) = fragment node"
  by (induction k v node rule: insert_at.induct)
     (auto simp: Let_def split: option.splits prod.splits)

lemma find_node_insert_at:
  "\<exists>n. find_node k (fst (insert_at k v node)) = Some n \<and> is_end n \<and> node_value n = v"
proof (induction k v node rule: insert_at.induct)
  case (1 v node)
  then show ?case by simp
next
  case (2 c cs v node)
  show ?case
  proof (cases "map_of (children node) c")
    case None
    then show ?thesis by (simp add: AList.update_conv' leaf_def)
  next
    case (Some child)
    let ?frag = "fragment child"
    let ?j = "match_len ?frag (c # cs)"
    show ?thesis
    proof (cases "?j = length ?frag")
      case True
      obtain child' d where ins: "insert_at (drop ?j (c # cs)) v child = (child', d)"
        by (cases "insert_at (drop ?j (c # cs)) v child")
      from 2 [OF Some refl refl True] ins
      obtain n where n: "find_node (drop ?j (c # cs)) child' = Some n" "is_end n" "node_value n = v"
        by auto
      have f: "fragment child' = ?frag"
        using fragment_insert_at [of "drop ?j (c # cs)" v child] ins by simp
      show ?thesis using Some True ins n f
        by (simp add: AList.update_conv' Let_def)
    next
      case False
      then have lt: "?j < length ?frag"
        using match_len_le_fragment [of ?frag "c # cs"] by simp
      define j where "j = ?j"
      have mt: "match_len (take j ?frag) (c # cs) = j"
        by (simp add: j_def)
      have jl: "j < length ?frag" "j \<le> length (c # cs)" "j \<noteq> length ?frag"
        using lt match_len_le_key [of ?frag "c # cs"] by (simp_all add: j_def)
      have step: "insert_at (c # cs) v node =
          (let split = TrieNode [(?frag ! j, set_fragment (drop j ?frag) child)]
                            False None (take j ?frag) in
              if j = length (c # cs)
              then (put_child c (set_end True v split) node, 1)
              else
                (let remaining = drop j (c # cs) in
                 (put_child c (put_child (hd remaining) (leaf remaining v) split) node, 1)))"
        using Some False by (simp add: Let_def j_def)
      show ?thesis
      proof (cases "j = length (c # cs)")
        case True
        have "find_node (c # cs) (fst (insert_at (c # cs) v node))
            = Some (set_end True v (TrieNode [(?frag ! j, set_fragment (drop j ?frag) child)]
                            False None (take j ?frag)))"
          unfolding step using True jl mt
          by (simp add: AList.update_conv' Let_def min_def del: match_len.simps)
        then show ?thesis by simp
      next
        case nk: False
        then have "drop j (c # cs) \<noteq> []"
          using jl by simp
        then obtain r rs where r: "drop j (c # cs) = r # rs"
          by (cases "drop j (c # cs)") auto
        have "find_node (c # cs) (fst (insert_at (c # cs) v node)) = Some (leaf (r # rs) v)"
          unfolding step using nk jl mt r
          by (simp add: AList.update_conv' Let_def min_def del: match_len.simps)
        then show ?thesis by (simp add: leaf_def)
      qed
    qed
  qed
qed

section \<open>The keys of a node and its children\<close>

lemma invar_iff:
  "invar node \<longleftrightarrow>
     distinct (map fst (children node)) \<and>
     (\<forall>c n. map_of (children node) c = Some n \<longrightarrow> hd (fragment n) = c \<and> sub_ok n)"
proof (cases node)
  case (TrieNode cs e v f)
  show ?thesis
  proof (cases "distinct (map fst cs)")
    case True
    then have "(\<forall>p\<in>set cs. fragment (snd p) \<noteq> [] \<and> hd (fragment (snd p)) = fst p \<and>
         (is_end (snd p) \<or> 2 \<le> length (children (snd p))) \<and> invar (snd p))
       \<longleftrightarrow> (\<forall>c n. map_of cs c = Some n \<longrightarrow> hd (fragment n) = c \<and> sub_ok n)"
      by (fastforce simp: sub_ok_def)
    with True TrieNode show ?thesis by simp
  next
    case False
    with TrieNode show ?thesis by simp
  qed
qed

lemma keys_of_iff:
  assumes "distinct (map fst (children node))"
  shows "keys_of node = (if is_end node then {[]} else {}) \<union>
     {k. \<exists>c n. map_of (children node) c = Some n \<and> k \<in> edge_keys n}"
proof (cases node)
  case (TrieNode cs e v f)
  with assms have d: "distinct (map fst cs)" by simp
  have "(\<Union>p\<in>set cs. (@) (fragment (snd p)) ` keys_of (snd p))
      = {k. \<exists>c n. map_of cs c = Some n \<and> k \<in> edge_keys n}"
    using d unfolding edge_keys_def by fastforce
  with TrieNode show ?thesis by simp
qed

lemma keys_of_rest_Some:
  assumes "distinct (map fst (children node))" "map_of (children node) c = Some child"
  shows "keys_of node = rest_keys c node \<union> edge_keys child"
proof -
  have "{k. \<exists>c' n. map_of (children node) c' = Some n \<and> k \<in> edge_keys n}
      = {k. \<exists>c' n. c' \<noteq> c \<and> map_of (children node) c' = Some n \<and> k \<in> edge_keys n}
        \<union> edge_keys child"
    using assms(2) by (auto simp del: map_of_eq_Some_iff) (metis option.inject)
  then show ?thesis
    unfolding keys_of_iff [OF assms(1)] rest_keys_def by blast
qed

lemma keys_of_rest_None:
  assumes "distinct (map fst (children node))" "map_of (children node) c = None"
  shows "keys_of node = rest_keys c node"
proof -
  have "{k. \<exists>c' n. map_of (children node) c' = Some n \<and> k \<in> edge_keys n}
      = {k. \<exists>c' n. c' \<noteq> c \<and> map_of (children node) c' = Some n \<and> k \<in> edge_keys n}"
    using assms(2) by (auto simp del: map_of_eq_Some_iff) (metis option.distinct(1))
  then show ?thesis
    unfolding keys_of_iff [OF assms(1)] rest_keys_def by simp
qed

lemma keys_of_put_child:
  assumes "distinct (map fst (children node))"
  shows "keys_of (put_child c x node) = rest_keys c node \<union> edge_keys x"
proof -
  have d: "distinct (map fst (children (put_child c x node)))"
    using assms by (simp add: AList.distinct_update)
  have m: "map_of (children (put_child c x node)) c = Some x"
    by (simp add: AList.update_conv')
  have "rest_keys c (put_child c x node) = rest_keys c node"
    by (auto simp: rest_keys_def AList.update_conv' simp del: map_of_eq_Some_iff)
  with keys_of_rest_Some [OF d m] show ?thesis by simp
qed

lemma keys_of_del_child:
  assumes "distinct (map fst (children node))"
  shows "keys_of (del_child c node) = rest_keys c node"
proof -
  have d: "distinct (map fst (children (del_child c node)))"
    using assms by (simp add: AList.distinct_delete)
  have m: "map_of (children (del_child c node)) c = None"
    by (simp add: AList.delete_conv')
  have "rest_keys c (del_child c node) = rest_keys c node"
    by (auto simp: rest_keys_def AList.delete_conv' simp del: map_of_eq_Some_iff)
  with keys_of_rest_None [OF d m] show ?thesis by simp
qed

lemma edge_keys_hd:
  "sub_ok n \<Longrightarrow> k \<in> edge_keys n \<Longrightarrow> k \<noteq> [] \<and> hd k = hd (fragment n)"
  by (auto simp: edge_keys_def sub_ok_def)

lemma not_in_rest_keys:
  assumes "invar node" shows "c # cs \<notin> rest_keys c node"
proof
  assume "c # cs \<in> rest_keys c node"
  then obtain c' n where n: "c' \<noteq> c" "map_of (children node) c' = Some n" "c # cs \<in> edge_keys n"
    by (auto simp: rest_keys_def simp del: map_of_eq_Some_iff split: if_splits)
  from assms n(2) have "hd (fragment n) = c'" "sub_ok n"
    unfolding invar_iff [of node] by blast+
  with edge_keys_hd [OF \<open>sub_ok n\<close> n(3)] n(1) show False by simp
qed

lemma Nil_in_keys_of:
  assumes "invar node" shows "[] \<in> keys_of node \<longleftrightarrow> is_end node"
proof -
  have "[] \<notin> edge_keys n" if "map_of (children node) c = Some n" for c n
  proof -
    from assms that have "sub_ok n" unfolding invar_iff [of node] by blast
    then show ?thesis using edge_keys_hd by blast
  qed
  moreover from assms have "distinct (map fst (children node))"
    unfolding invar_iff [of node] by blast
  ultimately show ?thesis
    unfolding keys_of_iff [OF \<open>distinct (map fst (children node))\<close>] by auto
qed

lemma Cons_in_keys_of_Some:
  assumes "invar node" "map_of (children node) c = Some child"
  shows "c # cs \<in> keys_of node \<longleftrightarrow> c # cs \<in> edge_keys child"
proof -
  from assms have "distinct (map fst (children node))"
    unfolding invar_iff [of node] by blast
  from keys_of_rest_Some [OF this assms(2)] not_in_rest_keys [OF assms(1), of c cs]
  show ?thesis by simp
qed

lemma Cons_in_keys_of_None:
  assumes "invar node" "map_of (children node) c = None"
  shows "c # cs \<notin> keys_of node"
proof -
  from assms have "distinct (map fst (children node))"
    unfolding invar_iff [of node] by blast
  from keys_of_rest_None [OF this assms(2)] not_in_rest_keys [OF assms(1), of c cs]
  show ?thesis by simp
qed

lemma invar_put_child:
  assumes "invar node" "sub_ok x" "hd (fragment x) = c"
  shows "invar (put_child c x node)"
  using assms unfolding invar_iff [of node] invar_iff [of "put_child c x node"]
  by (simp add: AList.distinct_update AList.update_conv' del: map_of_eq_Some_iff)

lemma invar_del_child:
  assumes "invar node" shows "invar (del_child c node)"
  using assms unfolding invar_iff [of node] invar_iff [of "del_child c node"]
  by (simp add: AList.distinct_delete AList.delete_conv' del: map_of_eq_Some_iff)

lemma invar_set_end [simp]: "invar (set_end e v n) = invar n"
  by (cases n) simp

lemma invar_set_fragment [simp]: "invar (set_fragment f n) = invar n"
  by (cases n) simp

lemma keys_of_set_fragment [simp]: "keys_of (set_fragment f n) = keys_of n"
  by (cases n) simp

lemma keys_of_set_end_True: "keys_of (set_end True v n) = Set.insert [] (keys_of n)"
  by (cases n) auto

lemma length_update:
  "length (AList.update c x cs) = (if c \<in> fst ` set cs then length cs else Suc (length cs))"
  by (induction cs) auto

lemma delete_absent: "c \<notin> fst ` set cs \<Longrightarrow> AList.delete c cs = cs"
  by (induction cs) auto

lemma length_delete:
  "distinct (map fst cs) \<Longrightarrow> c \<in> fst ` set cs \<Longrightarrow> Suc (length (AList.delete c cs)) = length cs"
  by (induction cs) (auto simp: delete_absent)

section \<open>Insertion keeps the invariant and adds the key\<close>

lemma insert_at_None:
  "map_of (children node) c = None \<Longrightarrow>
   insert_at (c # cs) v node = (put_child c (leaf (c # cs) v) node, 1)"
  by simp

lemma insert_at_descend:
  assumes "map_of (children node) c = Some child" "prefix (fragment child) (c # cs)"
  shows "insert_at (c # cs) v node =
     (case insert_at (drop (length (fragment child)) (c # cs)) v child of
        (child', d) \<Rightarrow> (put_child c child' node, d))"
proof -
  from assms(2) have "match_len (fragment child) (c # cs) = length (fragment child)"
    by (simp add: match_len_full_iff)
  with assms(1) show ?thesis by (simp add: Let_def del: match_len.simps)
qed

lemma insert_at_split_end:
  assumes "map_of (children node) c = Some child"
    and "match_len (fragment child) (c # cs) = j"
    and "j < length (fragment child)" "j = length (c # cs)"
  shows "insert_at (c # cs) v node =
     (put_child c (TrieNode [(fragment child ! j, set_fragment (drop j (fragment child)) child)]
        True v (take j (fragment child))) node, 1)"
  using assms by (simp add: Let_def del: match_len.simps)

lemma insert_at_split_leaf:
  assumes "map_of (children node) c = Some child"
    and "match_len (fragment child) (c # cs) = j"
    and "j < length (fragment child)" "j \<noteq> length (c # cs)"
  shows "insert_at (c # cs) v node =
     (put_child c (TrieNode [(fragment child ! j, set_fragment (drop j (fragment child)) child),
                             ((c # cs) ! j, leaf (drop j (c # cs)) v)]
        False None (take j (fragment child))) node, 1)"
proof -
  have lt: "j < length (c # cs)"
    using assms(2,4) match_len_le_key [of "fragment child" "c # cs"] by auto
  then have hd: "hd (drop j (c # cs)) = (c # cs) ! j"
    by (simp add: hd_drop_conv_nth)
  have ne: "fragment child ! j \<noteq> (c # cs) ! j"
    using match_len_mismatch [of "fragment child" "c # cs"] assms(2,3) lt by auto
  show ?thesis
    using assms ne by (simp add: Let_def hd put_child_def del: match_len.simps)
qed

lemma is_end_insert_at: "is_end node \<Longrightarrow> is_end (fst (insert_at k v node))"
  by (cases k) (auto simp: Let_def split: option.splits prod.splits)

lemma length_children_insert_at:
  "length (children node) \<le> length (children (fst (insert_at k v node)))"
  by (cases k) (auto simp: Let_def length_update split: option.splits prod.splits)

lemma sub_ok_insert_at:
  "sub_ok n \<Longrightarrow> invar (fst (insert_at k v n)) \<Longrightarrow> sub_ok (fst (insert_at k v n))"
  using is_end_insert_at [of n k v] length_children_insert_at [of n k v]
  by (auto simp: sub_ok_def)

lemma edge_keys_leaf [simp]: "edge_keys (leaf s v) = {s}"
  by (simp add: edge_keys_def leaf_def)

lemma invar_leaf [simp]: "invar (leaf s v)"
  by (simp add: leaf_def)

lemma sub_ok_leaf [simp]: "s \<noteq> [] \<Longrightarrow> sub_ok (leaf s v)"
  by (simp add: sub_ok_def leaf_def)

lemma match_len_pos: "f \<noteq> [] \<Longrightarrow> hd f = c \<Longrightarrow> 0 < match_len f (c # cs)"
  by (cases f) auto

lemma edge_keys_TrieNode:
  "edge_keys (TrieNode cs e v f) =
     (if e then {f} else {}) \<union> (\<Union>p\<in>set cs. (@) f ` edge_keys (snd p))"
  by (auto simp: edge_keys_def)

lemma edge_keys_set_fragment:
  "j \<le> length (fragment n) \<Longrightarrow>
   (@) (take j (fragment n)) ` edge_keys (set_fragment (drop j (fragment n)) n) = edge_keys n"
proof -
  assume "j \<le> length (fragment n)"
  have eq: "take j (fragment n) @ drop j (fragment n) @ s = fragment n @ s" for s
    by (metis append.assoc append_take_drop_id)
  have "(\<lambda>s. take j (fragment n) @ drop j (fragment n) @ s) ` keys_of n
      = (@) (fragment n) ` keys_of n"
    by (rule image_cong [OF refl]) (rule eq)
  then show ?thesis by (simp add: edge_keys_def image_image)
qed

lemma insert_at_correct:
  "invar node \<Longrightarrow>
   invar (fst (insert_at k v node)) \<and>
   keys_of (fst (insert_at k v node)) = Set.insert k (keys_of node) \<and>
   snd (insert_at k v node) = (if k \<in> keys_of node then 0 else 1)"
proof (induction k v node rule: insert_at.induct)
  case (1 v node)
  then show ?case by (simp add: keys_of_set_end_True Nil_in_keys_of)
next
  case (2 c cs v node)
  let ?k = "c # cs"
  from "2.prems" have d: "distinct (map fst (children node))"
    unfolding invar_iff [of node] by blast
  show ?case
  proof (cases "map_of (children node) c")
    case None
    have "invar (put_child c (leaf ?k v) node)"
      using "2.prems" by (intro invar_put_child) simp_all
    moreover have "keys_of (put_child c (leaf ?k v) node) = Set.insert ?k (keys_of node)"
      by (simp add: keys_of_put_child [OF d] keys_of_rest_None [OF d None])
    moreover note Cons_in_keys_of_None [OF "2.prems" None, of cs]
    ultimately show ?thesis by (simp add: None)
  next
    case (Some child)
    let ?frag = "fragment child"
    define j where "j = match_len ?frag ?k"
    from "2.prems" Some have hdf: "hd ?frag = c" and ok: "sub_ok child"
      unfolding invar_iff [of node] by blast+
    then have fne: "?frag \<noteq> []" and ich: "invar child" by (simp_all add: sub_ok_def)
    have mem: "?k \<in> keys_of node \<longleftrightarrow> ?k \<in> edge_keys child"
      by (rule Cons_in_keys_of_Some [OF "2.prems" Some])
    have kn: "keys_of node = rest_keys c node \<union> edge_keys child"
      by (rule keys_of_rest_Some [OF d Some])
    show ?thesis
    proof (cases "j = length ?frag")
      case True
      then have pre: "prefix ?frag ?k" by (simp add: j_def match_len_full_iff)
      then have keq: "?frag @ drop j ?k = ?k"
        using True by (metis append_eq_conv_conj prefixE)
      obtain child' d' where ins: "insert_at (drop j ?k) v child = (child', d')"
        by (cases "insert_at (drop j ?k) v child")
      from "2.IH" [OF Some refl refl, folded j_def, OF True ich] ins
      have ih: "invar child'" "keys_of child' = Set.insert (drop j ?k) (keys_of child)"
        "d' = (if drop j ?k \<in> keys_of child then 0 else 1)" by simp_all
      have fc: "fragment child' = ?frag"
        using fragment_insert_at [of "drop j ?k" v child] ins by simp
      have okc: "sub_ok child'"
        using sub_ok_insert_at [OF ok, of "drop j ?k" v] ins ih(1) by simp
      have step: "insert_at ?k v node = (put_child c child' node, d')"
        using insert_at_descend [OF Some pre, of v] ins True by simp
      have ek: "edge_keys child' = Set.insert ?k (edge_keys child)"
        by (simp add: edge_keys_def fc ih(2) keq)
      have "?k \<in> edge_keys child \<longleftrightarrow> drop j ?k \<in> keys_of child"
        unfolding edge_keys_def using keq by (metis (no_types, lifting) image_iff same_append_eq)
      with mem ih(3) have "d' = (if ?k \<in> keys_of node then 0 else 1)" by simp
      moreover have "invar (put_child c child' node)"
        using "2.prems" okc fc hdf by (intro invar_put_child) simp_all
      moreover have "keys_of (put_child c child' node) = Set.insert ?k (keys_of node)"
        by (simp add: keys_of_put_child [OF d] kn ek)
      ultimately show ?thesis by (simp add: step del: insert_at.simps)
    next
      case False
      then have lt: "j < length ?frag"
        using match_len_le_fragment [of ?frag ?k] by (simp add: j_def)
      have pos: "0 < j" unfolding j_def by (rule match_len_pos [OF fne hdf])
      have tk: "take j ?frag = take j ?k"
        unfolding j_def by (rule take_match_len)
      have npre: "\<not> prefix ?frag ?k"
        using False by (simp add: j_def match_len_full_iff)
      have notin: "?k \<notin> edge_keys child"
        using npre by (auto simp: edge_keys_def)
      let ?low = "set_fragment (drop j ?frag) child"
      have low_ok: "sub_ok ?low"
        using ok lt by (simp add: sub_ok_def)
      have low_hd: "hd (fragment ?low) = ?frag ! j"
        using lt by (simp add: hd_drop_conv_nth)
      have low_keys: "(@) (take j ?frag) ` edge_keys ?low = edge_keys child"
        using lt by (intro edge_keys_set_fragment) simp
      have hd_take: "hd (take j ?frag) = c" "take j ?frag \<noteq> []"
        using pos fne hdf by (cases ?frag; cases j; simp)+
      show ?thesis
      proof (cases "j = length ?k")
        case True
        let ?split = "TrieNode [(?frag ! j, ?low)] True v (take j ?frag)"
        have step: "insert_at ?k v node = (put_child c ?split node, 1)"
          by (rule insert_at_split_end [OF Some j_def [symmetric] lt True])
        have keq: "take j ?frag = ?k" using tk True by simp
        have "sub_ok ?split"
          using low_ok low_hd hd_take by (simp add: sub_ok_def)
        then have "invar (put_child c ?split node)"
          using "2.prems" hd_take by (intro invar_put_child) simp_all
        moreover have "edge_keys ?split = Set.insert ?k (edge_keys child)"
          using low_keys keq by (simp add: edge_keys_TrieNode)
        then have "keys_of (put_child c ?split node) = Set.insert ?k (keys_of node)"
          by (simp add: keys_of_put_child [OF d] kn)
        ultimately show ?thesis using mem notin by (simp add: step del: insert_at.simps)
      next
        case nk: False
        let ?split = "TrieNode [(?frag ! j, ?low), (?k ! j, leaf (drop j ?k) v)]
                        False None (take j ?frag)"
        have step: "insert_at ?k v node = (put_child c ?split node, 1)"
          by (rule insert_at_split_leaf [OF Some j_def [symmetric] lt nk])
        have ltk: "j < length ?k"
          using nk match_len_le_key [of ?frag ?k] by (simp add: j_def)
        have ne: "?frag ! j \<noteq> ?k ! j"
          using match_len_mismatch [of ?frag ?k] lt ltk by (simp add: j_def)
        have dne: "drop j ?k \<noteq> []" using ltk by simp
        have hdd: "hd (drop j ?k) = ?k ! j" using ltk by (simp add: hd_drop_conv_nth)
        have keq: "take j ?frag @ drop j ?k = ?k" using tk by simp
        have "sub_ok ?split"
          using low_ok low_hd hd_take ne dne hdd by (simp add: sub_ok_def)
        then have "invar (put_child c ?split node)"
          using "2.prems" hd_take by (intro invar_put_child) simp_all
        moreover have "edge_keys ?split = Set.insert ?k (edge_keys child)"
          using low_keys keq by (auto simp: edge_keys_TrieNode)
        then have "keys_of (put_child c ?split node) = Set.insert ?k (keys_of node)"
          by (simp add: keys_of_put_child [OF d] kn)
        ultimately show ?thesis using mem notin by (simp add: step del: insert_at.simps)
      qed
    qed
  qed
qed

section \<open>The loops of delete and the recursive description\<close>

lemma merge_Nil [simp]: "merge node [] = node"
  by (simp add: merge_def)

lemma merge_Cons [simp]: "merge node (p # path) = merge1 node"
  by (simp add: merge_def merge1_def)

lemma cleanup_Nil [simp]: "cleanup node [] = node"
  by (simp add: cleanup_def)

lemma cleanup_prunable:
  "children node = [] \<Longrightarrow> \<not> is_end node \<Longrightarrow>
   cleanup node ((parent, c) # path) = cleanup (del_child c parent) path"
  by (simp add: cleanup_def)

lemma cleanup_stop:
  "children node \<noteq> [] \<or> is_end node \<Longrightarrow>
   cleanup node ((parent, c) # path) = rebuild (merge1 node) ((parent, c) # path)"
  by (auto simp: cleanup_def)

lemma del_walk_rec:
  "(case del_rec key node of
      Missing \<Rightarrow> (case del_walk key node ((parent, e) # path) of
                    None \<Rightarrow> True | Some (p, n) \<Rightarrow> \<not> is_end n)
    | Pruned \<Rightarrow> (\<exists>p n. del_walk key node ((parent, e) # path) = Some (p, n) \<and> is_end n \<and>
                   cleanup (set_end False None n) p = cleanup (del_child e parent) path)
    | Replaced node' \<Rightarrow>
        (\<exists>p n. del_walk key node ((parent, e) # path) = Some (p, n) \<and> is_end n \<and>
           cleanup (set_end False None n) p = rebuild node' ((parent, e) # path)))"
proof (induction key node arbitrary: parent e path rule: del_rec.induct)
  case (1 node)
  then show ?case by (simp add: cleanup_prunable cleanup_stop)
next
  case (2 c cs node)
  show ?case
  proof (cases "map_of (children node) c")
    case None
    then show ?thesis by simp
  next
    case (Some child)
    show ?thesis
    proof (cases "prefix (fragment child) (c # cs)")
      case False
      with Some show ?thesis by simp
    next
      case True
      let ?rest = "drop (length (fragment child)) (c # cs)"
      note ih = "2.IH" [OF Some, of node c "(parent, e) # path"]
      have walk: "del_walk (c # cs) node ((parent, e) # path)
          = del_walk ?rest child ((node, c) # (parent, e) # path)"
        using Some True by simp
      show ?thesis
      proof (cases "del_rec ?rest child")
        case Missing
        with ih True have "case del_walk ?rest child ((node, c) # (parent, e) # path) of
                    None \<Rightarrow> True | Some (p, n) \<Rightarrow> \<not> is_end n" by simp
        with Some True Missing show ?thesis by (simp del: del_walk.simps add: walk)
      next
        case (Replaced child')
        with ih True obtain p n where
          pn: "del_walk ?rest child ((node, c) # (parent, e) # path) = Some (p, n)" "is_end n"
            "cleanup (set_end False None n) p = rebuild child' ((node, c) # (parent, e) # path)"
          by auto
        with Some True Replaced show ?thesis by (simp del: del_walk.simps add: walk)
      next
        case Pruned
        with ih True obtain p n where
          pn: "del_walk ?rest child ((node, c) # (parent, e) # path) = Some (p, n)" "is_end n"
            "cleanup (set_end False None n) p = cleanup (del_child c node) ((parent, e) # path)"
          by auto
        show ?thesis
        proof (cases "children (del_child c node) = [] \<and> \<not> is_end (del_child c node)")
          case pr: True
          then have "cleanup (del_child c node) ((parent, e) # path)
              = cleanup (del_child e parent) path"
            by (intro cleanup_prunable) simp_all
          with Some True Pruned pn pr show ?thesis
            by (simp del: del_walk.simps add: walk Let_def)
        next
          case np: False
          then have "cleanup (del_child c node) ((parent, e) # path)
              = rebuild (merge1 (del_child c node)) ((parent, e) # path)"
            by (intro cleanup_stop) auto
          with Some True Pruned pn np show ?thesis
            by (auto simp del: del_walk.simps simp add: walk Let_def)
        qed
      qed
    qed
  qed
qed

lemma delete_eq:
  "delete t key =
     (case del_root key (t_root t) of
        None \<Rightarrow> (False, t)
      | Some r \<Rightarrow> (True, \<lparr>t_root = r, t_size = t_size t - 1\<rparr>))"
proof (cases key)
  case Nil
  then show ?thesis by (simp add: delete_def)
next
  case (Cons c cs)
  show ?thesis
  proof (cases "map_of (children (t_root t)) c")
    case None
    with Cons show ?thesis by (simp add: delete_def)
  next
    case (Some child)
    show ?thesis
    proof (cases "prefix (fragment child) (c # cs)")
      case False
      with Cons Some show ?thesis by (simp add: delete_def)
    next
      case True
      let ?rest = "drop (length (fragment child)) (c # cs)"
      have walk: "del_walk (c # cs) (t_root t) [] = del_walk ?rest child [(t_root t, c)]"
        using Some True by simp
      note rec = del_walk_rec [of ?rest child "t_root t" c "[]"]
      have fin: "(case prune x p of (node', path') \<Rightarrow>
                    (True, \<lparr>t_root = rebuild (merge node' path') path', t_size = s\<rparr>))
                 = (True, \<lparr>t_root = cleanup x p, t_size = s\<rparr>)" for x p s
        by (simp add: cleanup_def split: prod.splits)
      show ?thesis
      proof (cases "del_rec ?rest child")
        case Missing
        with rec Cons Some True show ?thesis
          by (auto simp: delete_def walk simp del: del_walk.simps split: option.splits)
      next
        case (Replaced child')
        with rec obtain p n where "del_walk ?rest child [(t_root t, c)] = Some (p, n)" "is_end n"
            "cleanup (set_end False None n) p = rebuild child' [(t_root t, c)]"
          by auto
        with Cons Some True Replaced show ?thesis
          by (simp add: delete_def walk fin del: del_walk.simps)
      next
        case Pruned
        with rec obtain p n where "del_walk ?rest child [(t_root t, c)] = Some (p, n)" "is_end n"
            "cleanup (set_end False None n) p = cleanup (del_child c (t_root t)) []"
          by auto
        with Cons Some True Pruned show ?thesis
          by (simp add: delete_def walk fin del: del_walk.simps)
      qed
    qed
  qed
qed

section \<open>Deletion keeps the invariant and removes the key\<close>

lemma keys_of_clear:
  assumes "invar n"
  shows "keys_of (set_end False v n) = keys_of n - {[]}"
proof -
  from assms have d: "distinct (map fst (children n))"
    unfolding invar_iff [of n] by blast
  have "[] \<notin> edge_keys ch" if "map_of (children n) c = Some ch" for c ch
  proof -
    from assms that have "sub_ok ch" unfolding invar_iff [of n] by blast
    then show ?thesis using edge_keys_hd by blast
  qed
  then have "[] \<notin> {k. \<exists>c ch. map_of (children n) c = Some ch \<and> k \<in> edge_keys ch}"
    by blast
  then show ?thesis
    using keys_of_iff [OF d] keys_of_iff [of "set_end False v n"] d by auto
qed

lemma edge_keys_minus:
  "edge_keys n - {fragment n @ k} = (@) (fragment n) ` (keys_of n - {k})"
  by (auto simp: edge_keys_def)

lemma edge_keys_cong:
  "fragment n' = fragment n \<Longrightarrow> keys_of n' = keys_of n - {k} \<Longrightarrow>
   edge_keys n' = edge_keys n - {fragment n @ k}"
  by (simp add: edge_keys_minus) (simp add: edge_keys_def)

lemma merge1_ok:
  assumes "invar n" "fragment n \<noteq> []" "is_end n \<or> children n \<noteq> []"
  shows "sub_ok (merge1 n) \<and> edge_keys (merge1 n) = edge_keys n \<and>
         hd (fragment (merge1 n)) = hd (fragment n)"
proof (cases "length (children n) = 1 \<and> \<not> is_end n")
  case True
  then obtain c ch where cs: "children n = [(c, ch)]"
    by (cases "children n") (auto simp: length_Suc_conv)
  obtain cs0 e v f where n: "n = TrieNode cs0 e v f" by (cases n)
  with cs True have n': "n = TrieNode [(c, ch)] False v f" by simp
  from assms(1) have ok: "sub_ok ch" by (simp add: n' sub_ok_def)
  have m: "merge1 n = TrieNode (children ch) (is_end ch) (node_value ch) (f @ fragment ch)"
    by (simp add: merge1_def n')
  have inv: "invar (TrieNode (children ch) (is_end ch) (node_value ch) (f @ fragment ch))
      = invar ch" by (cases ch) simp
  have keys: "keys_of (TrieNode (children ch) (is_end ch) (node_value ch) (f @ fragment ch))
      = keys_of ch" by (cases ch) simp
  have "sub_ok (merge1 n)"
    unfolding m using ok by (simp add: sub_ok_def inv del: invar.simps)
  moreover have "edge_keys (merge1 n) = edge_keys n"
  proof -
    have "edge_keys (TrieNode (children ch) (is_end ch) (node_value ch) (f @ fragment ch))
        = (\<lambda>x. f @ fragment ch @ x) ` keys_of ch"
      unfolding edge_keys_def keys by (simp add: image_image)
    moreover have "edge_keys (TrieNode [(c, ch)] False v f)
        = (\<lambda>x. f @ fragment ch @ x) ` keys_of ch"
      by (simp add: edge_keys_def image_image)
    ultimately show ?thesis unfolding m by (simp only: n')
  qed
  moreover have "hd (fragment (merge1 n)) = hd (fragment n)"
    unfolding m using assms(2) by (simp add: n')
  ultimately show ?thesis by blast
next
  case False
  then have "merge1 n = n" by (auto simp: merge1_def)
  moreover have "sub_ok n"
  proof -
    have "is_end n \<or> 2 \<le> length (children n)"
      using False assms(3) by (cases "children n") (auto simp: Suc_le_eq)
    with assms show ?thesis by (simp add: sub_ok_def)
  qed
  ultimately show ?thesis by simp
qed

lemma keys_of_no_children:
  "children n = [] \<Longrightarrow> keys_of n = (if is_end n then {[]} else {})"
  by (cases n) simp

lemma map_of_in_keys: "map_of cs c = Some x \<Longrightarrow> c \<in> fst ` set cs"
  by (metis domI dom_map_of_conv_image_fst)

lemma del_rec_correct:
  "sub_ok node \<Longrightarrow>
   (case del_rec key node of
      Missing \<Rightarrow> key \<notin> keys_of node
    | Pruned \<Rightarrow> keys_of node = {key}
    | Replaced n' \<Rightarrow>
        key \<in> keys_of node \<and> sub_ok n' \<and> hd (fragment n') = hd (fragment node) \<and>
        edge_keys n' = edge_keys node - {fragment node @ key})"
proof (induction key node rule: del_rec.induct)
  case (1 node)
  then have inv: "invar node" and fne: "fragment node \<noteq> []" by (simp_all add: sub_ok_def)
  show ?case
  proof (cases "is_end node")
    case False
    with inv show ?thesis by (simp add: Nil_in_keys_of)
  next
    case True
    show ?thesis
    proof (cases "children node = []")
      case e: True
      with True show ?thesis by (simp add: keys_of_no_children)
    next
      case ne: False
      let ?n = "set_end False None node"
      have "sub_ok (merge1 ?n) \<and> edge_keys (merge1 ?n) = edge_keys ?n \<and>
         hd (fragment (merge1 ?n)) = hd (fragment ?n)"
        using inv fne ne by (intro merge1_ok) simp_all
      moreover have "edge_keys ?n = edge_keys node - {fragment node @ []}"
        by (rule edge_keys_cong) (simp_all add: keys_of_clear [OF inv])
      ultimately show ?thesis using True ne inv by (simp add: Nil_in_keys_of)
    qed
  qed
next
  case (2 c cs node)
  let ?k = "c # cs"
  from "2.prems" have inv: "invar node" and fne: "fragment node \<noteq> []"
    by (simp_all add: sub_ok_def)
  from inv have d: "distinct (map fst (children node))"
    unfolding invar_iff [of node] by blast
  show ?case
  proof (cases "map_of (children node) c")
    case None
    with Cons_in_keys_of_None [OF inv None, of cs] show ?thesis by simp
  next
    case (Some child)
    let ?frag = "fragment child"
    from inv Some have hdf: "hd ?frag = c" and ok: "sub_ok child"
      unfolding invar_iff [of node] by blast+
    have mem: "?k \<in> keys_of node \<longleftrightarrow> ?k \<in> edge_keys child"
      by (rule Cons_in_keys_of_Some [OF inv Some])
    have kn: "keys_of node = rest_keys c node \<union> edge_keys child"
      by (rule keys_of_rest_Some [OF d Some])
    have nr: "?k \<notin> rest_keys c node" by (rule not_in_rest_keys [OF inv])
    show ?thesis
    proof (cases "prefix ?frag ?k")
      case False
      then have "?k \<notin> edge_keys child" by (auto simp: edge_keys_def)
      with Some False mem show ?thesis by simp
    next
      case True
      let ?rest = "drop (length ?frag) ?k"
      from True have keq: "?frag @ ?rest = ?k"
        by (metis append_eq_conv_conj prefixE)
      have mem': "?k \<in> edge_keys child \<longleftrightarrow> ?rest \<in> keys_of child"
        unfolding edge_keys_def using keq by (metis (no_types, lifting) image_iff same_append_eq)
      note ih = "2.IH" [OF Some _ ok]
      show ?thesis
      proof (cases "del_rec ?rest child")
        case Missing
        with ih True have "?rest \<notin> keys_of child" by simp
        with Some True Missing mem mem' show ?thesis by simp
      next
        case (Replaced child')
        with ih True have r: "?rest \<in> keys_of child" "sub_ok child'"
          "hd (fragment child') = hd ?frag"
          "edge_keys child' = edge_keys child - {?frag @ ?rest}" by simp_all
        let ?n = "put_child c child' node"
        have "invar ?n" using inv r(2,3) hdf by (intro invar_put_child) simp_all
        moreover have "length (children ?n) = length (children node)"
          using map_of_in_keys [OF Some] by (simp add: length_update)
        ultimately have okn: "sub_ok ?n" using "2.prems" by (simp add: sub_ok_def)
        have "keys_of ?n = keys_of node - {?k}"
          using nr by (auto simp: keys_of_put_child [OF d] kn r(4) keq)
        then have "edge_keys ?n = edge_keys node - {fragment node @ ?k}"
          by (intro edge_keys_cong) simp_all
        with Some True Replaced okn r(1) mem mem' show ?thesis by simp
      next
        case Pruned
        with ih True have "keys_of child = {?rest}" by simp
        then have ek: "edge_keys child = {?k}" by (simp add: edge_keys_def keq)
        let ?n = "del_child c node"
        have kd: "keys_of ?n = keys_of node - {?k}"
          using nr by (auto simp: keys_of_del_child [OF d] kn ek)
        have invn: "invar ?n" by (rule invar_del_child [OF inv])
        show ?thesis
        proof (cases "children ?n = [] \<and> \<not> is_end ?n")
          case pr: True
          then have "keys_of ?n = {}" by (simp add: keys_of_no_children)
          with kd kn ek have "keys_of node = {?k}" by auto
          with Some True Pruned pr show ?thesis by (simp add: Let_def)
        next
          case np: False
          have "sub_ok (merge1 ?n) \<and> edge_keys (merge1 ?n) = edge_keys ?n \<and>
              hd (fragment (merge1 ?n)) = hd (fragment ?n)"
            using invn fne np by (intro merge1_ok) auto
          moreover have "edge_keys ?n = edge_keys node - {fragment node @ ?k}"
            using kd by (intro edge_keys_cong) simp_all
          moreover have "?k \<in> keys_of node" using kn ek by simp
          ultimately show ?thesis using Some True Pruned np by (auto simp: Let_def)
        qed
      qed
    qed
  qed
qed

lemma del_root_correct:
  assumes "invar node"
  shows "case del_root key node of
      None \<Rightarrow> key \<notin> keys_of node
    | Some r \<Rightarrow> key \<in> keys_of node \<and> invar r \<and> keys_of r = keys_of node - {key}"
proof (cases key)
  case Nil
  with assms show ?thesis by (simp add: Nil_in_keys_of keys_of_clear)
next
  case (Cons c cs)
  let ?k = "c # cs"
  from assms have d: "distinct (map fst (children node))"
    unfolding invar_iff [of node] by blast
  show ?thesis
  proof (cases "map_of (children node) c")
    case None
    with Cons_in_keys_of_None [OF assms None, of cs] Cons show ?thesis by simp
  next
    case (Some child)
    let ?frag = "fragment child"
    from assms Some have hdf: "hd ?frag = c" and ok: "sub_ok child"
      unfolding invar_iff [of node] by blast+
    have mem: "?k \<in> keys_of node \<longleftrightarrow> ?k \<in> edge_keys child"
      by (rule Cons_in_keys_of_Some [OF assms Some])
    have kn: "keys_of node = rest_keys c node \<union> edge_keys child"
      by (rule keys_of_rest_Some [OF d Some])
    have nr: "?k \<notin> rest_keys c node" by (rule not_in_rest_keys [OF assms])
    show ?thesis
    proof (cases "prefix ?frag ?k")
      case False
      then have "?k \<notin> edge_keys child" by (auto simp: edge_keys_def)
      with Some False mem Cons show ?thesis by simp
    next
      case True
      let ?rest = "drop (length ?frag) ?k"
      from True have keq: "?frag @ ?rest = ?k"
        by (metis append_eq_conv_conj prefixE)
      have mem': "?k \<in> edge_keys child \<longleftrightarrow> ?rest \<in> keys_of child"
        unfolding edge_keys_def using keq by (metis (no_types, lifting) image_iff same_append_eq)
      note rec = del_rec_correct [OF ok, of ?rest]
      show ?thesis
      proof (cases "del_rec ?rest child")
        case Missing
        with rec have "?rest \<notin> keys_of child" by simp
        with Some True Missing mem mem' Cons show ?thesis by simp
      next
        case (Replaced child')
        with rec have r: "?rest \<in> keys_of child" "sub_ok child'"
          "hd (fragment child') = hd ?frag"
          "edge_keys child' = edge_keys child - {?frag @ ?rest}" by simp_all
        let ?n = "put_child c child' node"
        have "invar ?n" using assms r(2,3) hdf by (intro invar_put_child) simp_all
        moreover have "keys_of ?n = keys_of node - {?k}"
          using nr by (auto simp: keys_of_put_child [OF d] kn r(4) keq)
        ultimately show ?thesis using Some True Replaced r(1) mem mem' Cons by simp
      next
        case Pruned
        with rec have "keys_of child = {?rest}" by simp
        then have ek: "edge_keys child = {?k}" by (simp add: edge_keys_def keq)
        let ?n = "del_child c node"
        have "keys_of ?n = keys_of node - {?k}"
          using nr by (auto simp: keys_of_del_child [OF d] kn ek)
        moreover have "invar ?n" by (rule invar_del_child [OF assms])
        moreover have "?k \<in> keys_of node" using kn ek by simp
        ultimately show ?thesis using Some True Pruned Cons by simp
      qed
    qed
  qed
qed

section \<open>Reachable states satisfy the invariant\<close>

lemma insert_trie_correct:
  assumes "invar (t_root t)"
  shows "invar (t_root (insert_trie t k v))"
    and "keys_of (t_root (insert_trie t k v)) = Set.insert k (keys_of (t_root t))"
    and "t_size (insert_trie t k v) = t_size t + (if k \<in> keys_of (t_root t) then 0 else 1)"
proof -
  obtain r d where ins: "insert_at k v (t_root t) = (r, d)"
    by (cases "insert_at k v (t_root t)")
  with insert_at_correct [OF assms, of k v]
  have "invar r" "keys_of r = Set.insert k (keys_of (t_root t))"
    "d = (if k \<in> keys_of (t_root t) then 0 else 1)" by simp_all
  then show "invar (t_root (insert_trie t k v))"
    and "keys_of (t_root (insert_trie t k v)) = Set.insert k (keys_of (t_root t))"
    and "t_size (insert_trie t k v) = t_size t + (if k \<in> keys_of (t_root t) then 0 else 1)"
    by (simp_all add: insert_trie_def ins)
qed

lemma delete_correct:
  assumes "invar (t_root t)"
  shows "fst (delete t k) \<longleftrightarrow> k \<in> keys_of (t_root t)"
    and "k \<notin> keys_of (t_root t) \<Longrightarrow> delete t k = (False, t)"
    and "invar (t_root (snd (delete t k)))"
    and "keys_of (t_root (snd (delete t k))) = keys_of (t_root t) - {k}"
    and "t_size (snd (delete t k)) = t_size t - (if k \<in> keys_of (t_root t) then 1 else 0)"
proof -
  note c = del_root_correct [OF assms, of k]
  show "fst (delete t k) \<longleftrightarrow> k \<in> keys_of (t_root t)"
    using c by (cases "del_root k (t_root t)") (simp_all add: delete_eq)
  show "k \<notin> keys_of (t_root t) \<Longrightarrow> delete t k = (False, t)"
    using c by (cases "del_root k (t_root t)") (simp_all add: delete_eq)
  show "invar (t_root (snd (delete t k)))"
    using c assms by (cases "del_root k (t_root t)") (simp_all add: delete_eq)
  show "keys_of (t_root (snd (delete t k))) = keys_of (t_root t) - {k}"
    using c by (cases "del_root k (t_root t)") (simp_all add: delete_eq)
  show "t_size (snd (delete t k)) = t_size t - (if k \<in> keys_of (t_root t) then 1 else 0)"
    using c by (cases "del_root k (t_root t)") (simp_all add: delete_eq)
qed

lemma reach_invariant:
  "reach t S \<Longrightarrow>
   invar (t_root t) \<and> keys_of (t_root t) = S \<and> finite S \<and> t_size t = int (card S)"
proof (induction rule: reach.induct)
  case reach_empty
  show ?case by (simp add: empty_trie_def)
next
  case (reach_insert t S k v)
  then have inv: "invar (t_root t)" and keys: "keys_of (t_root t) = S" and fin: "finite S"
    and sz: "t_size t = int (card S)" by simp_all
  show ?case
    using insert_trie_correct [OF inv, of k v] keys fin sz
    by (simp add: card_insert_if)
next
  case (reach_delete t S k)
  then have inv: "invar (t_root t)" and keys: "keys_of (t_root t) = S" and fin: "finite S"
    and sz: "t_size t = int (card S)" by simp_all
  have pos: "k \<in> S \<Longrightarrow> 0 < card S" using fin by (auto simp: card_gt_0_iff)
  have "t_size (snd (delete t k)) = int (card (S - {k}))"
  proof (cases "k \<in> S")
    case True
    with pos have "int (card (S - {k})) = int (card S) - 1"
      using fin by (simp add: card_Diff_singleton_if of_nat_diff)
    with True show ?thesis using delete_correct(5) [OF inv, of k] keys sz by simp
  next
    case False
    then show ?thesis using delete_correct(5) [OF inv, of k] keys sz by simp
  qed
  then show ?case
    using delete_correct(3,4) [OF inv, of k] keys fin by simp
qed

section \<open>The traversal\<close>

lemma dfs_append: "dfs (xs @ ys) = dfs xs @ dfs ys"
  by (induction xs arbitrary: ys rule: dfs.induct) simp_all

declare dfs.simps [simp del]

lemma dfs_concat: "dfs xs = concat (map (\<lambda>p. dfs [p]) xs)"
proof (induction xs)
  case Nil
  show ?case by (simp add: dfs.simps)
next
  case (Cons x xs)
  have "dfs (x # xs) = dfs ([x] @ xs)" by simp
  also have "\<dots> = dfs [x] @ dfs xs" by (rule dfs_append)
  finally show ?case using Cons by simp
qed

lemma dfs_node:
  "dfs [(n, acc)] =
     (if is_end n then [acc] else []) @
     concat (map (\<lambda>ch. dfs [(the (map_of (children n) ch),
                               acc @ fragment (the (map_of (children n) ch)))])
              (sort (map fst (children n))))"
proof -
  have "dfs [(n, acc)] = (if is_end n then [acc] else []) @
     dfs (map (\<lambda>ch. let child = the (map_of (children n) ch) in (child, acc @ fragment child))
            (sort (map fst (children n))))"
    by (simp add: dfs.simps)
  also have "dfs (map (\<lambda>ch. let child = the (map_of (children n) ch)
                              in (child, acc @ fragment child))
            (sort (map fst (children n))))
      = concat (map (\<lambda>ch. dfs [(the (map_of (children n) ch),
                               acc @ fragment (the (map_of (children n) ch)))])
              (sort (map fst (children n))))"
    by (subst dfs_concat) (simp add: comp_def Let_def)
  finally show ?thesis .
qed

lemma sorted_wrt_concat_map:
  assumes "sorted_wrt R xs"
    and "\<forall>x\<in>set xs. sorted_wrt P (g x)"
    and "\<forall>x\<in>set xs. \<forall>y\<in>set xs. R x y \<longrightarrow> (\<forall>a\<in>set (g x). \<forall>b\<in>set (g y). P a b)"
  shows "sorted_wrt P (concat (map g xs))"
  using assms
proof (induction xs)
  case Nil
  show ?case by simp
next
  case (Cons x xs)
  then show ?case by (auto simp: sorted_wrt_append)
qed

lemma less_append_left: "(acc @ x < acc @ y) \<longleftrightarrow> (x < (y :: string))"
  by (induction acc) simp_all

lemma dfs_correct:
  "invar n \<Longrightarrow>
   set (dfs [(n, acc)]) = (@) acc ` keys_of n \<and> sorted_wrt (<) (dfs [(n, acc)])"
proof (induction n arbitrary: acc)
  case (TrieNode cs e v f)
  let ?n = "TrieNode cs e v f"
  let ?child = "\<lambda>ch. the (map_of cs ch)"
  let ?g = "\<lambda>ch. dfs [(?child ch, acc @ fragment (?child ch))]"
  from TrieNode.prems have d: "distinct (map fst cs)" by simp
  have child: "?child (fst p) = snd p" if "p \<in> set cs" for p
  proof -
    from that d have "map_of cs (fst p) = Some (snd p)" by simp
    then show ?thesis by simp
  qed
  have ok: "fragment (snd p) \<noteq> [] \<and> hd (fragment (snd p)) = fst p \<and> invar (snd p)"
    if "p \<in> set cs" for p
    using that TrieNode.prems by simp
  have ih: "set (dfs [(snd p, a)]) = (@) a ` keys_of (snd p) \<and> sorted_wrt (<) (dfs [(snd p, a)])"
    if "p \<in> set cs" for p a
  proof -
    have "snd p \<in> Basic_BNFs.snds p" by (cases p) simp
    from TrieNode.IH [OF that this, of a] ok [OF that] show ?thesis by simp
  qed
  have g_set: "set (?g (fst p)) = (@) acc ` (@) (fragment (snd p)) ` keys_of (snd p)"
    if "p \<in> set cs" for p
    using ih [OF that] child [OF that] by (simp add: image_image)
  have node: "dfs [(?n, acc)] = (if e then [acc] else []) @ concat (map ?g (sort (map fst cs)))"
    using dfs_node [of ?n acc] by simp
  have A: "set (concat (map ?g (sort (map fst cs)))) = (\<Union>p\<in>set cs. set (?g (fst p)))"
    by auto
  have B: "(\<Union>p\<in>set cs. set (?g (fst p)))
      = (\<Union>p\<in>set cs. (@) acc ` (@) (fragment (snd p)) ` keys_of (snd p))"
    by (rule SUP_cong [OF refl]) (rule g_set)
  have C: "(@) acc ` keys_of ?n = (if e then {acc} else {}) \<union>
      (\<Union>p\<in>set cs. (@) acc ` (@) (fragment (snd p)) ` keys_of (snd p))"
    by (simp add: image_Un image_UN)
  have D: "set (dfs [(?n, acc)])
      = (if e then {acc} else {}) \<union> set (concat (map ?g (sort (map fst cs))))"
    by (subst node) (cases e; simp only: set_append if_True if_False list.set)
  have set_eq: "set (dfs [(?n, acc)]) = (@) acc ` keys_of ?n"
    unfolding D A B C by (rule refl)
  have starts: "\<exists>s. a = acc @ fst p # s" if "p \<in> set cs" "a \<in> set (?g (fst p))" for p a
  proof -
    from ok [OF that(1)] obtain r where "fragment (snd p) = fst p # r"
      by (cases "fragment (snd p)") auto
    with that(2) g_set [OF that(1)] show ?thesis by auto
  qed
  have strict: "sorted_wrt (<) (sort (map fst cs))"
    using d by (simp add: strict_sorted_iff)
  have "sorted_wrt (<) (concat (map ?g (sort (map fst cs))))"
  proof (rule sorted_wrt_concat_map [OF strict])
    show "\<forall>x\<in>set (sort (map fst cs)). sorted_wrt (<) (?g x)"
    proof
      fix x assume "x \<in> set (sort (map fst cs))"
      then obtain p where p: "p \<in> set cs" "x = fst p" by auto
      with ih [OF p(1)] child [OF p(1)] show "sorted_wrt (<) (?g x)" by simp
    qed
    show "\<forall>x\<in>set (sort (map fst cs)). \<forall>y\<in>set (sort (map fst cs)).
        x < y \<longrightarrow> (\<forall>a\<in>set (?g x). \<forall>b\<in>set (?g y). a < b)"
    proof (intro ballI impI)
      fix x y a b
      assume x: "x \<in> set (sort (map fst cs))" and y: "y \<in> set (sort (map fst cs))"
        and lt: "x < y" and a: "a \<in> set (?g x)" and b: "b \<in> set (?g y)"
      from x obtain p where p: "p \<in> set cs" "x = fst p" by auto
      from y obtain q where q: "q \<in> set cs" "y = fst q" by auto
      from starts [OF p(1)] a p(2) obtain s where s: "a = acc @ x # s" by auto
      from starts [OF q(1)] b q(2) obtain s' where s': "b = acc @ y # s'" by auto
      show "a < b" unfolding s s' using lt by (simp add: less_append_left)
    qed
  qed
  moreover have "acc < a" if "a \<in> set (concat (map ?g (sort (map fst cs))))" for a
  proof -
    from that obtain p where p: "p \<in> set cs" "a \<in> set (?g (fst p))" by auto
    from starts [OF this] obtain s where "a = acc @ fst p # s" by auto
    then show ?thesis using less_append_left [of acc "[]" "fst p # s"] by simp
  qed
  ultimately have "sorted_wrt (<) (dfs [(?n, acc)])"
    unfolding node by (auto simp: sorted_wrt_append)
  with set_eq show ?case by blast
qed

section \<open>The walk of find_node\<close>

lemma keys_of_nonempty: "sub_ok n \<Longrightarrow> keys_of n \<noteq> {}"
proof (induction n)
  case (TrieNode cs e v f)
  show ?case
  proof (cases e)
    case True
    then show ?thesis by auto
  next
    case False
    with TrieNode.prems have "2 \<le> length cs" by (simp add: sub_ok_def)
    then obtain p ps where cs: "cs = p # ps" by (cases cs) auto
    then have pin: "p \<in> set cs" by simp
    with TrieNode.prems have "sub_ok (snd p)" by (simp add: sub_ok_def)
    moreover have "snd p \<in> Basic_BNFs.snds p" by (cases p) simp
    ultimately have "keys_of (snd p) \<noteq> {}" using TrieNode.IH [OF pin] by blast
    with pin show ?thesis by auto
  qed
qed

lemma prefix_key_edge:
  assumes "invar node" "map_of (children node) c = Some child"
  shows "(\<exists>k\<in>keys_of node. prefix (c # cs) k) \<longleftrightarrow> (\<exists>k\<in>edge_keys child. prefix (c # cs) k)"
proof
  assume "\<exists>k\<in>keys_of node. prefix (c # cs) k"
  then obtain k where k: "k \<in> keys_of node" "prefix (c # cs) k" by blast
  from k(2) obtain ks where "k = c # ks" by (auto simp: prefix_def)
  with k Cons_in_keys_of_Some [OF assms, of ks] show "\<exists>k\<in>edge_keys child. prefix (c # cs) k"
    by blast
next
  assume "\<exists>k\<in>edge_keys child. prefix (c # cs) k"
  then obtain k where k: "k \<in> edge_keys child" "prefix (c # cs) k" by blast
  from k(2) obtain ks where "k = c # ks" by (auto simp: prefix_def)
  with k Cons_in_keys_of_Some [OF assms, of ks] show "\<exists>k\<in>keys_of node. prefix (c # cs) k"
    by blast
qed

lemma prefix_key_None:
  assumes "invar node" "map_of (children node) c = None"
  shows "\<not> (\<exists>k\<in>keys_of node. prefix (c # cs) k)"
proof
  assume "\<exists>k\<in>keys_of node. prefix (c # cs) k"
  then obtain k where k: "k \<in> keys_of node" "prefix (c # cs) k" by blast
  from k(2) obtain ks where "k = c # ks" by (auto simp: prefix_def)
  with k Cons_in_keys_of_None [OF assms, of ks] show False by blast
qed

lemma find_step:
  assumes inv: "invar node" and ch: "map_of (children node) c = Some child"
    and rec: "prefix (fragment child) (c # cs) \<Longrightarrow>
       (find_node (drop (length (fragment child)) (c # cs)) child \<noteq> None) \<longleftrightarrow>
       (\<exists>k\<in>keys_of child. prefix (drop (length (fragment child)) (c # cs)) k)"
  shows "(find_node (c # cs) node \<noteq> None) \<longleftrightarrow> (\<exists>k\<in>keys_of node. prefix (c # cs) k)"
proof -
  let ?p = "c # cs"
  let ?frag = "fragment child"
  define j where "j = match_len ?frag ?p"
  from inv ch have ok: "sub_ok child" unfolding invar_iff [of node] by blast
  from keys_of_nonempty [OF ok] obtain s where s: "s \<in> keys_of child" by blast
  have edge: "(\<exists>k\<in>keys_of node. prefix ?p k) \<longleftrightarrow> (\<exists>k\<in>keys_of child. prefix ?p (?frag @ k))"
    unfolding prefix_key_edge [OF inv ch] edge_keys_def by blast
  have jf: "j \<le> length ?frag" and jp: "j \<le> length ?p"
    unfolding j_def by (rule match_len_le_fragment, rule match_len_le_key)
  have tk: "take j ?frag = take j ?p" unfolding j_def by (rule take_match_len)
  have step: "find_node ?p node =
      (if j < length ?frag then (if j = length ?p then Some child else None)
       else find_node (drop j ?p) child)"
    using ch by (simp add: Let_def j_def del: match_len.simps)
  show ?thesis
  proof (cases "j < length ?frag")
    case True
    show ?thesis
    proof (cases "j = length ?p")
      case eq: True
      with tk have "?p = take j ?frag" by simp
      then have "prefix ?p ?frag" by (metis take_is_prefix)
      then have "prefix ?p (?frag @ s)" by (rule prefix_prefix)
      with s edge step True eq show ?thesis by auto
    next
      case ne: False
      with jp have lt: "j < length ?p" by simp
      have mis: "?frag ! j \<noteq> ?p ! j"
        using match_len_mismatch [of ?frag ?p] True lt by (simp add: j_def)
      have "\<not> prefix ?p (?frag @ k)" for k
      proof
        assume "prefix ?p (?frag @ k)"
        then obtain z where "?frag @ k = ?p @ z" by (auto simp: prefix_def)
        then have "(?frag @ k) ! j = (?p @ z) ! j" by simp
        moreover have "(?frag @ k) ! j = ?frag ! j" using True by (simp add: nth_append)
        moreover have "(?p @ z) ! j = ?p ! j" using lt by (metis nth_append)
        ultimately show False using mis by simp
      qed
      with edge step True ne show ?thesis by auto
    qed
  next
    case False
    with jf have full: "j = length ?frag" by simp
    then have pre: "prefix ?frag ?p" by (simp add: j_def match_len_full_iff)
    then have peq: "?frag @ drop j ?p = ?p" using full by (metis append_eq_conv_conj prefixE)
    have "prefix ?p (?frag @ k) \<longleftrightarrow> prefix (drop j ?p) k" for k
      by (subst peq [symmetric]) simp
    with edge rec [OF pre] step False full show ?thesis by simp
  qed
qed

lemma find_node_sub:
  "sub_ok n \<Longrightarrow> (find_node p n \<noteq> None) \<longleftrightarrow> (\<exists>k\<in>keys_of n. prefix p k)"
proof (induction p n rule: find_node.induct)
  case (1 node)
  with keys_of_nonempty [OF 1] show ?case by auto
next
  case (2 c cs node)
  then have inv: "invar node" by (simp add: sub_ok_def)
  show ?case
  proof (cases "map_of (children node) c")
    case None
    with prefix_key_None [OF inv None, of cs] show ?thesis by simp
  next
    case (Some child)
    from inv Some have ok: "sub_ok child" unfolding invar_iff [of node] by blast
    show ?thesis
    proof (rule find_step [OF inv Some])
      assume pre: "prefix (fragment child) (c # cs)"
      then have m: "match_len (fragment child) (c # cs) = length (fragment child)"
        by (simp add: match_len_full_iff)
      from "2.IH" [OF Some refl _ ok] m
      show "(find_node (drop (length (fragment child)) (c # cs)) child \<noteq> None) \<longleftrightarrow>
        (\<exists>k\<in>keys_of child. prefix (drop (length (fragment child)) (c # cs)) k)"
        by (simp del: match_len.simps)
    qed
  qed
qed

lemma find_node_root:
  assumes "invar node"
  shows "(find_node p node \<noteq> None) \<longleftrightarrow> (\<exists>k\<in>keys_of node. prefix p k) \<or> p = []"
proof (cases p)
  case Nil
  then show ?thesis by simp
next
  case (Cons c cs)
  show ?thesis
  proof (cases "map_of (children node) c")
    case None
    with prefix_key_None [OF assms None, of cs] Cons show ?thesis by simp
  next
    case (Some child)
    from assms Some have ok: "sub_ok child" unfolding invar_iff [of node] by blast
    have "(find_node (c # cs) node \<noteq> None) \<longleftrightarrow> (\<exists>k\<in>keys_of node. prefix (c # cs) k)"
      by (rule find_step [OF assms Some]) (rule find_node_sub [OF ok])
    with Cons show ?thesis by simp
  qed
qed

section \<open>Consequences for the operations of the trie\<close>

lemma search_insert_trie: "search (insert_trie t k v) k = v"
proof -
  obtain r d where ins: "insert_at k v (t_root t) = (r, d)"
    by (cases "insert_at k v (t_root t)")
  from find_node_insert_at [of k v "t_root t"] ins
  obtain n where "find_node k r = Some n" "is_end n" "node_value n = v" by auto
  then show ?thesis by (simp add: search_def insert_trie_def ins)
qed

lemma keys_with_prefix_Nil:
  assumes "reach t S"
  shows "set (keys_with_prefix t []) = S" and "sorted_wrt (<) (keys_with_prefix t [])"
    and "distinct (keys_with_prefix t [])" and "length (keys_with_prefix t []) = card S"
proof -
  from reach_invariant [OF assms] have inv: "invar (t_root t)" and k: "keys_of (t_root t) = S"
    by simp_all
  have kw: "keys_with_prefix t [] = dfs [(t_root t, [])]" by (simp add: keys_with_prefix_def)
  from dfs_correct [OF inv, of "[]"] k
  show s: "set (keys_with_prefix t []) = S" and o: "sorted_wrt (<) (keys_with_prefix t [])"
    by (simp_all add: kw)
  from o show d: "distinct (keys_with_prefix t [])" by (simp add: strict_sorted_iff)
  from s d show "length (keys_with_prefix t []) = card S" by (metis distinct_card)
qed

lemma not_stored_iff: "reach t S \<Longrightarrow> not_stored t k \<longleftrightarrow> k \<notin> S"
proof -
  assume r: "reach t S"
  from reach_invariant [OF r] have inv: "invar (t_root t)" and k: "keys_of (t_root t) = S"
    by simp_all
  have "fst (delete t k) \<longleftrightarrow> \<not> not_stored t k"
    by (auto simp: delete_def not_stored_def split: option.splits prod.splits)
  with delete_correct(1) [OF inv, of k] k show ?thesis by blast
qed

lemma delete_not_stored_eq: "not_stored t k \<Longrightarrow> delete t k = (False, t)"
  by (auto simp: delete_def not_stored_def split: option.splits)

lemma invar_first_chars:
  assumes "invar n"
  shows "distinct (first_chars n)" and "\<forall>p\<in>set (children n). fragment (snd p) \<noteq> []"
proof -
  obtain cs e v f where n: "n = TrieNode cs e v f" by (cases n)
  with assms have d: "distinct (map fst cs)"
    and h: "\<forall>p\<in>set cs. fragment (snd p) \<noteq> [] \<and> hd (fragment (snd p)) = fst p" by simp_all
  from h have "map (\<lambda>p. hd (fragment (snd p))) cs = map fst cs" by (intro map_cong) simp_all
  with d show "distinct (first_chars n)" by (simp only: first_chars_def n TrieNode.sel)
  from h show "\<forall>p\<in>set (children n). fragment (snd p) \<noteq> []" by (simp add: n)
qed

lemma invar_subnodes: "invar n \<Longrightarrow> m \<in> set (subnodes n) \<Longrightarrow> sub_ok m"
proof (induction n arbitrary: m)
  case (TrieNode cs e v f)
  from TrieNode.prems(2) obtain p where p: "p \<in> set cs" "m = snd p \<or> m \<in> set (subnodes (snd p))"
    by auto
  from TrieNode.prems(1) p(1) have ok: "sub_ok (snd p)" by (simp add: sub_ok_def)
  have "snd p \<in> Basic_BNFs.snds p" by (cases p) simp
  from TrieNode.IH [OF p(1) this] ok p(2) show ?case by (auto simp: sub_ok_def)
qed

text \<open>
  With the single key \<^verbatim>\<open>"a"\<close> stored with the value \<^verbatim>\<open>None\<close>, \<^verbatim>\<open>search\<close> returns
  \<^verbatim>\<open>None\<close> for every key.
\<close>

lemma none_valued_key_never_found:
  "search (insert_trie empty_trie ''a'' (None :: 'v option)) k = None"
proof (cases k)
  case Nil
  then show ?thesis by (simp add: search_def insert_trie_def empty_trie_def)
next
  case (Cons c cs)
  then show ?thesis
    by (cases cs) (auto simp: search_def insert_trie_def empty_trie_def put_child_def leaf_def)
qed

section \<open>Round trip\<close>

text \<open>
  Claim C6. For every trie, every key \<open>k\<close> and every value \<open>v\<close> (the value \<^verbatim>\<open>None\<close>
  included), \<^verbatim>\<open>search(k)\<close> right after \<^verbatim>\<open>insert(k, v)\<close> returns \<open>v\<close>.
\<close>

theorem insert_then_search: "search (insert_trie t k v) k = v"
  by (rule search_insert_trie)

section \<open>Size\<close>

text \<open>
  Claim C3 says that \<^verbatim>\<open>size()\<close> is the number of keys for which \<^verbatim>\<open>search\<close> is not absent.
  It fails in two ways. A key stored with the value \<^verbatim>\<open>None\<close> is counted, and \<^verbatim>\<open>search\<close>
  returns \<^verbatim>\<open>None\<close> for it (and for every other key, \<open>none_valued_key_never_found\<close>).
  And with only \<^verbatim>\<open>"apple"\<close> stored the size is 1, while \<^verbatim>\<open>search\<close> finds both \<^verbatim>\<open>"app"\<close>
  and \<^verbatim>\<open>"apple"\<close>.
\<close>

theorem size_search_counterexample:
  "len (insert_trie empty_trie ''apple'' (Some (1::nat))) = 1 \<and>
   search (insert_trie empty_trie ''apple'' (Some (1::nat))) ''app'' = Some 1 \<and>
   search (insert_trie empty_trie ''apple'' (Some (1::nat))) ''apple'' = Some 1 \<and>
   len (insert_trie empty_trie ''a'' (None :: nat option)) = 1 \<and>
   search (insert_trie empty_trie ''a'' (None :: nat option)) ''a'' = None"
  by code_simp

text \<open>
  Claim C3 as amended: in every reachable state \<^verbatim>\<open>size()\<close> is the number of stored keys
  (the keys inserted and not deleted since, whatever their values), which is also the
  number of strings that \<^verbatim>\<open>keys_with_prefix("")\<close> yields.
\<close>

theorem size_counts_stored_keys:
  "reach t S \<Longrightarrow> len t = int (card S) \<and> len t = int (length (keys_with_prefix t []))"
  using reach_invariant [of t S] keys_with_prefix_Nil(4) [of t S] by (simp add: len_def)

theorem size_counts_stored_keys_witness:
  "reach (insert_trie (empty_trie :: nat Trie) ''a'' None) (Set.insert ''a'' {}) \<and>
   len (insert_trie (empty_trie :: nat Trie) ''a'' None) = int (card (Set.insert ''a'' {}))"
proof -
  have r: "reach (insert_trie (empty_trie :: nat Trie) ''a'' None) (Set.insert ''a'' {})"
    by (intro reach.intros)
  show ?thesis
    by (rule conjI [OF r conjunct1 [OF size_counts_stored_keys [OF r]]])
qed

section \<open>Deleting a key that is not stored\<close>

text \<open>
  Claim C5. When the walk of \<^verbatim>\<open>delete(k)\<close> cannot consume \<open>k\<close> fragment by fragment or
  lands on a node that is not terminal (for any trie), and when \<open>k\<close> is not among the
  stored keys of a reachable trie, \<^verbatim>\<open>delete\<close> returns false and the trie, its nodes and
  its size, is the one before the call.
\<close>

theorem delete_not_stored:
  "not_stored t k \<or> (reach t S \<and> k \<notin> S) \<Longrightarrow>
   delete t k = (False, t) \<and> len (snd (delete t k)) = len t"
  using not_stored_iff [of t S k] delete_not_stored_eq [of t k] by auto

theorem delete_not_stored_witness:
  "not_stored (insert_trie empty_trie ''apple'' (Some (1::nat))) ''app'' \<and>
   reach (insert_trie empty_trie ''apple'' (Some (1::nat))) (Set.insert ''apple'' {}) \<and>
   ''app'' \<notin> Set.insert ''apple'' {} \<and>
   delete (insert_trie empty_trie ''apple'' (Some (1::nat))) ''app''
     = (False, insert_trie empty_trie ''apple'' (Some (1::nat)))"
proof -
  let ?t = "insert_trie empty_trie ''apple'' (Some (1::nat))"
  have n: "not_stored ?t ''app''" by code_simp
  have r: "reach ?t (Set.insert ''apple'' {})" by (intro reach.intros)
  have m: "''app'' \<notin> Set.insert ''apple'' {}" by simp
  from delete_not_stored [of ?t "''app''" "Set.insert ''apple'' {}", OF disjI1 [OF n]]
  have d: "delete ?t ''app'' = (False, ?t)" by (rule conjunct1)
  show ?thesis by (rule conjI [OF n conjI [OF r conjI [OF m d]]])
qed

section \<open>Enumeration of all keys\<close>

text \<open>
  Claim C7. In every reachable state \<^verbatim>\<open>keys_with_prefix("")\<close> yields the stored keys, each
  once, in strictly ascending lexicographic order of the characters.
\<close>

theorem enumerate_all_sorted:
  "reach t S \<Longrightarrow>
   set (keys_with_prefix t []) = S \<and> distinct (keys_with_prefix t []) \<and>
   sorted_wrt (<) (keys_with_prefix t [])"
  using keys_with_prefix_Nil(1,2,3) [of t S] by simp

theorem enumerate_all_sorted_witness:
  "reach (insert_trie (insert_trie (insert_trie (empty_trie :: nat Trie)
       ''bath'' (Some 1)) ''bat'' (Some 2)) ''batch'' (Some 3))
     (Set.insert ''batch'' (Set.insert ''bat'' (Set.insert ''bath'' {}))) \<and>
   sorted_wrt (<) (keys_with_prefix (insert_trie (insert_trie (insert_trie
       (empty_trie :: nat Trie) ''bath'' (Some 1)) ''bat'' (Some 2)) ''batch'' (Some 3)) []) \<and>
   keys_with_prefix (insert_trie (insert_trie (insert_trie
       (empty_trie :: nat Trie) ''bath'' (Some 1)) ''bat'' (Some 2)) ''batch'' (Some 3)) []
     = [''bat'', ''batch'', ''bath'']"
proof -
  let ?t = "insert_trie (insert_trie (insert_trie (empty_trie :: nat Trie)
       ''bath'' (Some 1)) ''bat'' (Some 2)) ''batch'' (Some 3)"
  have r: "reach ?t (Set.insert ''batch'' (Set.insert ''bat'' (Set.insert ''bath'' {})))"
    by (intro reach.intros)
  have e: "keys_with_prefix ?t [] = [''bat'', ''batch'', ''bath'']" by code_simp
  from enumerate_all_sorted [OF r] have s: "sorted_wrt (<) (keys_with_prefix ?t [])" by blast
  show ?thesis by (rule conjI [OF r conjI [OF s e]])
qed

section \<open>Structural invariants\<close>

text \<open>
  Claim C8. In every reachable state, at every node the edges to the children have
  fragments that are not empty and start with different characters, and every node below
  the root that is not terminal has at least two children.
\<close>

theorem reachable_structure:
  "reach t S \<Longrightarrow>
   (\<forall>n\<in>set (t_root t # subnodes (t_root t)).
      distinct (first_chars n) \<and> (\<forall>p\<in>set (children n). fragment (snd p) \<noteq> [])) \<and>
   (\<forall>n\<in>set (subnodes (t_root t)). \<not> is_end n \<longrightarrow> 2 \<le> length (children n))"
proof -
  assume "reach t S"
  then have inv: "invar (t_root t)" using reach_invariant by blast
  have "invar n" if "n \<in> set (t_root t # subnodes (t_root t))" for n
    using that inv invar_subnodes [OF inv, of n] by (auto simp: sub_ok_def)
  moreover have "\<not> is_end n \<longrightarrow> 2 \<le> length (children n)" if "n \<in> set (subnodes (t_root t))" for n
    using invar_subnodes [OF inv that] by (auto simp: sub_ok_def)
  ultimately show ?thesis using invar_first_chars by blast
qed

theorem reachable_structure_witness:
  "reach (insert_trie (insert_trie (empty_trie :: nat Trie) ''ab'' (Some 1)) ''ac'' (Some 2))
     (Set.insert ''ac'' (Set.insert ''ab'' {})) \<and>
   distinct (first_chars (t_root
     (insert_trie (insert_trie (empty_trie :: nat Trie) ''ab'' (Some 1)) ''ac'' (Some 2)))) \<and>
   \<not> is_end (hd (subnodes (t_root
     (insert_trie (insert_trie (empty_trie :: nat Trie) ''ab'' (Some 1)) ''ac'' (Some 2))))) \<and>
   2 \<le> length (children (hd (subnodes (t_root
     (insert_trie (insert_trie (empty_trie :: nat Trie) ''ab'' (Some 1)) ''ac'' (Some 2))))))"
proof -
  let ?t = "insert_trie (insert_trie (empty_trie :: nat Trie) ''ab'' (Some 1)) ''ac'' (Some 2)"
  have r: "reach ?t (Set.insert ''ac'' (Set.insert ''ab'' {}))" by (intro reach.intros)
  note s = reachable_structure [OF r]
  have m: "hd (subnodes (t_root ?t)) \<in> set (subnodes (t_root ?t))" by code_simp
  have ne: "\<not> is_end (hd (subnodes (t_root ?t)))" by code_simp
  from s have d: "distinct (first_chars (t_root ?t))" by simp
  from s m ne have c: "2 \<le> length (children (hd (subnodes (t_root ?t))))" by blast
  show ?thesis by (rule conjI [OF r conjI [OF d conjI [OF ne c]]])
qed

section \<open>Prefix test\<close>

text \<open>
  Claim C9 says that \<^verbatim>\<open>starts_with(p)\<close> is true exactly when a stored key has \<open>p\<close> as a
  prefix. On the empty trie \<^verbatim>\<open>starts_with("")\<close> is true (the walk lands on the root) and no
  key is stored.
\<close>

theorem starts_with_empty_counterexample:
  "reach (empty_trie :: nat Trie) {} \<and> starts_with (empty_trie :: nat Trie) []"
  by (rule conjI [OF reach_empty]) (simp add: starts_with_def)

text \<open>
  Claim C9 as amended: in every reachable state \<^verbatim>\<open>starts_with(p)\<close> is true exactly when a
  stored key has \<open>p\<close> as a prefix or \<open>p\<close> is the empty string.
\<close>

theorem starts_with_iff:
  "reach t S \<Longrightarrow> starts_with t p \<longleftrightarrow> (\<exists>k\<in>S. prefix p k) \<or> p = []"
  using reach_invariant [of t S] find_node_root [of "t_root t" p]
  by (simp add: starts_with_def)

theorem starts_with_iff_witness:
  "reach (insert_trie (empty_trie :: nat Trie) ''apple'' (Some 1)) (Set.insert ''apple'' {}) \<and>
   starts_with (insert_trie (empty_trie :: nat Trie) ''apple'' (Some 1)) ''app'' \<and>
   \<not> starts_with (insert_trie (empty_trie :: nat Trie) ''apple'' (Some 1)) ''b''"
proof -
  let ?t = "insert_trie (empty_trie :: nat Trie) ''apple'' (Some 1)"
  have r: "reach ?t (Set.insert ''apple'' {})" by (intro reach.intros)
  have a: "starts_with ?t ''app''"
    unfolding starts_with_iff [OF r] by simp
  have b: "\<not> starts_with ?t ''b''"
    unfolding starts_with_iff [OF r] by simp
  show ?thesis by (rule conjI [OF r conjI [OF a b]])
qed

section \<open>Keys stored with the value None\<close>

text \<open>
  Claim C10. After \<^verbatim>\<open>insert(k, None)\<close>, \<^verbatim>\<open>search(k)\<close> returns \<^verbatim>\<open>None\<close> and \<^verbatim>\<open>k in trie\<close> is
  false, for every trie; and when the trie was reachable, \<open>k\<close> is among the strings
  \<^verbatim>\<open>keys_with_prefix("")\<close> yields and is counted by the size.
\<close>

theorem none_value_hidden:
  "search (insert_trie t k None) k = None \<and>
   \<not> contains (insert_trie t k None) k \<and>
   (reach t S \<longrightarrow>
      k \<in> set (keys_with_prefix (insert_trie t k None) []) \<and>
      len (insert_trie t k None) = int (card (Set.insert k S)))"
proof -
  have s: "search (insert_trie t k None) k = None" by (rule search_insert_trie)
  have "k \<in> set (keys_with_prefix (insert_trie t k None) []) \<and>
      len (insert_trie t k None) = int (card (Set.insert k S))" if "reach t S"
  proof -
    from that have r: "reach (insert_trie t k None) (Set.insert k S)" by (rule reach_insert)
    from keys_with_prefix_Nil(1) [OF r] reach_invariant [OF r] show ?thesis
      by (simp add: len_def)
  qed
  with s show ?thesis by (simp add: contains_def)
qed

theorem none_value_hidden_witness:
  "reach (empty_trie :: nat Trie) {} \<and>
   search (insert_trie (empty_trie :: nat Trie) ''a'' None) ''a'' = None \<and>
   ''a'' \<in> set (keys_with_prefix (insert_trie (empty_trie :: nat Trie) ''a'' None) []) \<and>
   len (insert_trie (empty_trie :: nat Trie) ''a'' None) = int (card (Set.insert ''a'' {}))"
proof -
  note n = none_value_hidden [of "empty_trie :: nat Trie" "''a''" "{}"]
  from n have s: "search (insert_trie (empty_trie :: nat Trie) ''a'' None) ''a'' = None"
    by (rule conjunct1)
  from n reach_empty
  have e: "''a'' \<in> set (keys_with_prefix (insert_trie (empty_trie :: nat Trie) ''a'' None) [])"
    and l: "len (insert_trie (empty_trie :: nat Trie) ''a'' None) = int (card (Set.insert ''a'' {}))"
    by blast+
  show ?thesis by (rule conjI [OF reach_empty conjI [OF s conjI [OF e l]]])
qed

section \<open>Keys that end inside a fragment\<close>

text \<open>
  Claim C1 says that \<^verbatim>\<open>search\<close> returns absent for a key whose walk ends inside a
  fragment. After \<^verbatim>\<open>insert("apple", 1)\<close> on the empty trie the walk for \<^verbatim>\<open>"app"\<close> ends
  inside the fragment \<^verbatim>\<open>"apple"\<close>; \<^verbatim>\<open>_find_node\<close> returns the child, which is terminal,
  and \<^verbatim>\<open>search("app")\<close> returns the value stored for \<^verbatim>\<open>"apple"\<close>.
\<close>

theorem search_inside_fragment:
  "search (insert_trie empty_trie ''apple'' (Some (1::nat))) ''app'' = Some 1"
  by code_simp

text \<open>
  Claim C2 says that \<^verbatim>\<open>keys_with_prefix(p)\<close> yields the stored keys that start with
  \<open>p\<close>, each as the full key. On the same trie \<^verbatim>\<open>keys_with_prefix("app")\<close> starts the
  traversal at the child with the accumulated string \<^verbatim>\<open>"app"\<close>, and yields \<^verbatim>\<open>"app"\<close>,
  which is not a stored key, in place of \<^verbatim>\<open>"apple"\<close>.
\<close>

theorem keys_with_prefix_inside_fragment:
  "keys_with_prefix (insert_trie empty_trie ''apple'' (Some (1::nat))) ''app'' = [''app'']"
  by code_simp

text \<open>
  Claim C4 says that \<^verbatim>\<open>search(k)\<close> after \<^verbatim>\<open>delete(k)\<close> returns absent. With the keys
  \<^verbatim>\<open>"apple"\<close> and \<^verbatim>\<open>"applesauce"\<close> stored, \<^verbatim>\<open>delete("apple")\<close> returns true and merges
  the node with its only child; \<^verbatim>\<open>search("apple")\<close> then ends inside the merged fragment
  and returns the value of \<^verbatim>\<open>"applesauce"\<close>. With only \<^verbatim>\<open>"apple"\<close> stored, \<^verbatim>\<open>delete("app")\<close>
  returns false and \<^verbatim>\<open>search("app")\<close> returns the value of \<^verbatim>\<open>"apple"\<close>.
\<close>

theorem search_after_delete_inside_fragment:
  "fst (delete (insert_trie (insert_trie empty_trie ''apple'' (Some (1::nat)))
          ''applesauce'' (Some 2)) ''apple'') = True \<and>
   search (snd (delete (insert_trie (insert_trie empty_trie ''apple'' (Some (1::nat)))
          ''applesauce'' (Some 2)) ''apple'')) ''apple'' = Some 2 \<and>
   fst (delete (insert_trie empty_trie ''apple'' (Some (1::nat))) ''app'') = False \<and>
   search (snd (delete (insert_trie empty_trie ''apple'' (Some (1::nat))) ''app'')) ''app''
     = Some 1"
  by code_simp

end
